theory Spec2Isabelle
  imports Main
begin

section \<open>Data model of \<^verbatim>\<open>walk_chain.ts\<close>\<close>

text \<open>
  The six exported traversals of \<^verbatim>\<open>walk_chain.ts\<close> (lines 13 to 330):
  \<^verbatim>\<open>walkChainCallSync\<close>, \<^verbatim>\<open>walkChainCall\<close>, \<^verbatim>\<open>walkChainMerge\<close> and their
  \<^verbatim>\<open>Id\<close> variants. Each is an inner function \<^verbatim>\<open>recursion\<close> and one call of it; the
  inner functions are \<open>recursion_CallSync\<close>, \<open>recursion_Call\<close> and so on, with the
  variables they close over as their first arguments.

  Nodes are JavaScript objects: they have an identity, and \<^verbatim>\<open>Array.prototype.includes\<close>
  compares them by that identity. A node is therefore denoted by its address in a store of
  objects, and two nodes are the same object exactly when their addresses are equal.
\<close>

type_synonym addr = nat

text \<open>
  The values an identifier-typed field holds: a string (the declared type), or one of the
  two absent-like values \<^verbatim>\<open>undefined\<close> and \<^verbatim>\<open>null\<close>.
\<close>

datatype idval = Undefined | Null | Str string

text \<open>
  The loose equality \<^verbatim>\<open>==\<close> of JavaScript on these values: \<^verbatim>\<open>undefined\<close> and
  \<^verbatim>\<open>null\<close> are equal to themselves and to each other and to nothing else; two strings
  are equal when they are the same string.
\<close>

fun looseEq :: "idval \<Rightarrow> idval \<Rightarrow> bool" where
  "looseEq (Str s) (Str t) = (s = t)"
| "looseEq (Str s) _ = False"
| "looseEq _ (Str t) = False"
| "looseEq _ _ = True"

text \<open>
  A node object, with the three fields the traversals read: \<^verbatim>\<open>node[linkName]\<close>,
  \<^verbatim>\<open>node[idName]\<close> and \<^verbatim>\<open>node[mergeProperty]\<close>. The link field holds a node reference
  or \<^verbatim>\<open>undefined\<close> in the direct functions (\<open>'l = addr option\<close>) and an identifier
  in the \<^verbatim>\<open>Id\<close> functions (\<open>'l = idval\<close>). The merged property is of type
  \<^verbatim>\<open>unknown\<close>: \<open>None\<close> is \<^verbatim>\<open>undefined\<close>, \<open>Some v\<close> any other value.
\<close>

record ('l, 'v) node =
  linkName :: 'l
  idName :: idval
  mergeProperty :: "'v option"

text \<open>
  The store is the list of the objects that have fields; an address beyond it denotes an
  object without own fields (\<^verbatim>\<open>{}\<close>), every field of which reads \<^verbatim>\<open>undefined\<close>.
  The first argument of \<open>getNode\<close> is \<^verbatim>\<open>undefined\<close> at the type of the link field.
\<close>

definition emptyNode :: "'l \<Rightarrow> ('l, 'v) node" where
  "emptyNode absent = \<lparr>linkName = absent, idName = Undefined, mergeProperty = None\<rparr>"

definition getNode :: "'l \<Rightarrow> ('l, 'v) node list \<Rightarrow> addr \<Rightarrow> ('l, 'v) node" where
  "getNode absent heap a = (if a < length heap then heap ! a else emptyNode absent)"

text \<open>
  What a traversal does besides returning a value, in the order it does it:
  \<open>Visit\<close> is \<^verbatim>\<open>visitedNodes.push(node)\<close>, \<open>Compare nd\<close> one call of the predicate of
  \<^verbatim>\<open>nodeList.find\<close> on the element \<open>nd\<close>, \<open>Invoke node lastValue\<close> one call of the
  callback, \<open>Settle node v\<close> the completion of the promise that call returned, and
  \<open>Merge a b\<close> the call \<^verbatim>\<open>mergeFunction(a, b)\<close>.
\<close>

datatype 'x event =
    Visit addr
  | Compare addr
  | Invoke addr 'x
  | Settle addr 'x
  | Merge 'x 'x

text \<open>\<^verbatim>\<open>visitedNodes.includes(nextNode)\<close>: identity of objects; \<^verbatim>\<open>undefined\<close> is no node.\<close>

definition includes_js :: "addr list \<Rightarrow> addr option \<Rightarrow> bool" where
  "includes_js visitedNodes nextNode = (nextNode \<in> set (map Some visitedNodes))"

text \<open>
  \<^verbatim>\<open>nodeList.find(pred)\<close>: the first element the predicate accepts, or \<^verbatim>\<open>undefined\<close>,
  and the elements the predicate was called on, in order.
\<close>

fun examined :: "('a \<Rightarrow> bool) \<Rightarrow> 'a list \<Rightarrow> 'a list" where
  "examined pred [] = []"
| "examined pred (nd # nds) = (if pred nd then [nd] else nd # examined pred nds)"

definition find_js :: "('a \<Rightarrow> bool) \<Rightarrow> 'a list \<Rightarrow> 'a option \<times> 'a list" where
  "find_js pred nodeList = (find pred nodeList, examined pred nodeList)"

text \<open>
  A promise, as far as a traversal sees it: the value it is fulfilled with, and the time
  that passes between the call that returned it and its fulfilment.
\<close>

datatype 'x promise = Promise (delay: nat) (outcome: 'x)

section \<open>The direct traversals\<close>

text \<open>
  Callbacks and merge functions are the caller's; they are modelled as functions of their
  arguments that complete normally and leave the nodes as they are. A callback that throws,
  a promise that is rejected and a callback that changes the links of the chain while it is
  walked are outside this model. \<^verbatim>\<open>visitedNodes\<close> is one array that every call of
  \<^verbatim>\<open>recursion\<close> pushes to; as each call makes at most one recursive call, passing the
  extended list down is the same.
\<close>

function recursion_CallSync ::
  "(addr option, 'v) node list \<Rightarrow> (addr \<Rightarrow> 'u option \<Rightarrow> 'd \<Rightarrow> 'u option) \<Rightarrow> 'd \<Rightarrow>
   addr \<Rightarrow> 'u option \<Rightarrow> addr list \<Rightarrow> 'u option \<times> 'u option event list" where
  "recursion_CallSync heap callback data node lastValue visitedNodes =
     (let visitedNodes' = visitedNodes @ [node];
          returnValue = callback node lastValue data;
          nextNode = linkName (getNode None heap node);
          here = [Visit node, Invoke node lastValue]
      in if includes_js visitedNodes' nextNode then (returnValue, here)
         else (case nextNode of
                 None \<Rightarrow> (returnValue, here)
               | Some n \<Rightarrow>
                   (let (r, tr) = recursion_CallSync heap callback data n returnValue visitedNodes'
                    in (r, here @ tr))))"
  by pat_completeness auto
termination
proof (relation "measure (\<lambda>(heap, callback, data, node, lastValue, visitedNodes).
    2 * card ({..<length heap} - set visitedNodes - {node}) + (if node < length heap then 1 else 0))",
    goal_cases)
  case 1
  show ?case by simp
next
  case (2 heap callback data node lastValue visitedNodes vn rv nxt dn n)
  have link: "linkName (getNode None heap node) = Some n"
    using 2 by simp
  then have lt: "node < length heap"
    by (auto simp: getNode_def emptyNode_def split: if_splits)
  have "\<not> includes_js (visitedNodes @ [node]) (Some n)"
    using 2 link by simp
  then have fresh: "n \<notin> set visitedNodes" "n \<noteq> node"
    by (auto simp: includes_js_def)
  let ?S = "{..<length heap} - set visitedNodes - {node}"
  show ?case
  proof (cases "n < length heap")
    case True
    then have "n \<in> ?S" using fresh by simp
    then have "card (?S - {n}) < card ?S"
      by (intro psubset_card_mono) auto
    moreover have "{..<length heap} - set (visitedNodes @ [node]) - {n} = ?S - {n}"
      by auto
    ultimately show ?thesis using 2 lt True by simp
  next
    case False
    then have "{..<length heap} - set (visitedNodes @ [node]) - {n} = ?S"
      by auto
    then show ?thesis using 2 lt False by simp
  qed
qed

definition walkChainCallSync ::
  "(addr option, 'v) node list \<Rightarrow> (addr \<Rightarrow> 'u option \<Rightarrow> 'd \<Rightarrow> 'u option) \<Rightarrow> addr \<Rightarrow> 'd \<Rightarrow>
   'u option \<times> 'u option event list" where
  "walkChainCallSync heap callback startNode data =
     recursion_CallSync heap callback data startNode None []"


text \<open>
  The asynchronous traversal. \<open>now\<close> is the time at which the body starts to run;
  \<^verbatim>\<open>await\<close> resumes the body with the promise's value at the time the promise is
  fulfilled. The result is the value the returned promise is fulfilled with, the time of
  that fulfilment, and the events with their times.
\<close>

function recursion_Call ::
  "(addr option, 'v) node list \<Rightarrow> (addr \<Rightarrow> 'u option \<Rightarrow> 'd \<Rightarrow> 'u option promise) \<Rightarrow> 'd \<Rightarrow>
   addr \<Rightarrow> 'u option \<Rightarrow> addr list \<Rightarrow> nat \<Rightarrow> 'u option \<times> nat \<times> (nat \<times> 'u option event) list" where
  "recursion_Call heap callback data node lastValue visitedNodes now =
     (let visitedNodes' = visitedNodes @ [node];
          pending = callback node lastValue data;
          resumed = now + delay pending;
          returnValue = outcome pending;
          nextNode = linkName (getNode None heap node);
          here = [(now, Visit node), (now, Invoke node lastValue), (resumed, Settle node returnValue)]
      in if includes_js visitedNodes' nextNode then (returnValue, resumed, here)
         else (case nextNode of
                 None \<Rightarrow> (returnValue, resumed, here)
               | Some n \<Rightarrow>
                   (let (r, t, tr) =
                          recursion_Call heap callback data n returnValue visitedNodes' resumed
                    in (r, t, here @ tr))))"
  by pat_completeness auto
termination
proof (relation "measure (\<lambda>(heap, callback, data, node, lastValue, visitedNodes, now).
    2 * card ({..<length heap} - set visitedNodes - {node}) + (if node < length heap then 1 else 0))",
    goal_cases)
  case 1
  show ?case by simp
next
  case (2 heap callback data node lastValue visitedNodes now vn pe re rv nxt dn n)
  have link: "linkName (getNode None heap node) = Some n"
    using 2 by simp
  then have lt: "node < length heap"
    by (auto simp: getNode_def emptyNode_def split: if_splits)
  have "\<not> includes_js (visitedNodes @ [node]) (Some n)"
    using 2 link by simp
  then have fresh: "n \<notin> set visitedNodes" "n \<noteq> node"
    by (auto simp: includes_js_def)
  let ?S = "{..<length heap} - set visitedNodes - {node}"
  show ?case
  proof (cases "n < length heap")
    case True
    then have "n \<in> ?S" using fresh by simp
    then have "card (?S - {n}) < card ?S"
      by (intro psubset_card_mono) auto
    moreover have "{..<length heap} - set (visitedNodes @ [node]) - {n} = ?S - {n}"
      by auto
    ultimately show ?thesis using 2 lt True by simp
  next
    case False
    then have "{..<length heap} - set (visitedNodes @ [node]) - {n} = ?S"
      by auto
    then show ?thesis using 2 lt False by simp
  qed
qed

definition walkChainCall ::
  "(addr option, 'v) node list \<Rightarrow> (addr \<Rightarrow> 'u option \<Rightarrow> 'd \<Rightarrow> 'u option promise) \<Rightarrow> addr \<Rightarrow> 'd \<Rightarrow>
   'u option \<times> nat \<times> (nat \<times> 'u option event) list" where
  "walkChainCall heap callback startNode data =
     recursion_Call heap callback data startNode None [] 0"

function recursion_Merge ::
  "(addr option, 'v) node list \<Rightarrow> ('v option \<Rightarrow> 'v option \<Rightarrow> 'v option) \<Rightarrow>
   addr \<Rightarrow> addr list \<Rightarrow> 'v option \<times> 'v option event list" where
  "recursion_Merge heap mergeFunction node visitedNodes =
     (let visitedNodes' = visitedNodes @ [node];
          localProperty = mergeProperty (getNode None heap node);
          nextNode = linkName (getNode None heap node)
      in if includes_js visitedNodes' nextNode then (localProperty, [Visit node])
         else (case nextNode of
                 None \<Rightarrow> (localProperty, [Visit node])
               | Some n \<Rightarrow>
                   (if localProperty = None
                    then (let (r, tr) = recursion_Merge heap mergeFunction n visitedNodes'
                          in (r, Visit node # tr))
                    else (let (r, tr) = recursion_Merge heap mergeFunction n visitedNodes'
                          in (mergeFunction r localProperty,
                              Visit node # tr @ [Merge r localProperty])))))"
  by pat_completeness auto
termination
proof (relation "measure (\<lambda>(heap, mergeFunction, node, visitedNodes).
    2 * card ({..<length heap} - set visitedNodes - {node}) + (if node < length heap then 1 else 0))",
    goal_cases)
  case 1
  show ?case by simp
next
  case (2 heap mergeFunction node visitedNodes vn lp nxt n)
  have link: "linkName (getNode None heap node) = Some n"
    using 2 by simp
  then have lt: "node < length heap"
    by (auto simp: getNode_def emptyNode_def split: if_splits)
  have "\<not> includes_js (visitedNodes @ [node]) (Some n)"
    using 2 link by simp
  then have fresh: "n \<notin> set visitedNodes" "n \<noteq> node"
    by (auto simp: includes_js_def)
  let ?S = "{..<length heap} - set visitedNodes - {node}"
  show ?case
  proof (cases "n < length heap")
    case True
    then have "n \<in> ?S" using fresh by simp
    then have "card (?S - {n}) < card ?S"
      by (intro psubset_card_mono) auto
    moreover have "{..<length heap} - set (visitedNodes @ [node]) - {n} = ?S - {n}"
      by auto
    ultimately show ?thesis using 2 lt True by simp
  next
    case False
    then have "{..<length heap} - set (visitedNodes @ [node]) - {n} = ?S"
      by auto
    then show ?thesis using 2 lt False by simp
  qed
next
  case (3 heap mergeFunction node visitedNodes vn lp nxt n)
  have link: "linkName (getNode None heap node) = Some n"
    using 3 by simp
  then have lt: "node < length heap"
    by (auto simp: getNode_def emptyNode_def split: if_splits)
  have "\<not> includes_js (visitedNodes @ [node]) (Some n)"
    using 3 link by simp
  then have fresh: "n \<notin> set visitedNodes" "n \<noteq> node"
    by (auto simp: includes_js_def)
  let ?S = "{..<length heap} - set visitedNodes - {node}"
  show ?case
  proof (cases "n < length heap")
    case True
    then have "n \<in> ?S" using fresh by simp
    then have "card (?S - {n}) < card ?S"
      by (intro psubset_card_mono) auto
    moreover have "{..<length heap} - set (visitedNodes @ [node]) - {n} = ?S - {n}"
      by auto
    ultimately show ?thesis using 3 lt True by simp
  next
    case False
    then have "{..<length heap} - set (visitedNodes @ [node]) - {n} = ?S"
      by auto
    then show ?thesis using 3 lt False by simp
  qed
qed

definition walkChainMerge ::
  "(addr option, 'v) node list \<Rightarrow> ('v option \<Rightarrow> 'v option \<Rightarrow> 'v option) \<Rightarrow> addr \<Rightarrow>
   'v option \<times> 'v option event list" where
  "walkChainMerge heap mergeFunction startNode = recursion_Merge heap mergeFunction startNode []"


section \<open>The traversals that resolve the link by identifier\<close>

function recursion_IdCallSync ::
  "(idval, 'v) node list \<Rightarrow> addr list \<Rightarrow> (addr \<Rightarrow> 'u option \<Rightarrow> 'd \<Rightarrow> 'u option) \<Rightarrow> 'd \<Rightarrow>
   addr \<Rightarrow> 'u option \<Rightarrow> addr list \<Rightarrow> 'u option \<times> 'u option event list" where
  "recursion_IdCallSync heap nodeList callback data node lastValue visitedNodes =
     (let visitedNodes' = visitedNodes @ [node];
          returnValue = callback node lastValue data;
          linkId = linkName (getNode Undefined heap node);
          here = [Visit node, Invoke node lastValue]
      in if linkId = Undefined then (returnValue, here)
         else (let (nextNode, seen) =
                     find_js (\<lambda>nd. looseEq (idName (getNode Undefined heap nd)) linkId) nodeList;
                   searched = here @ map Compare seen
               in if includes_js visitedNodes' nextNode then (returnValue, searched)
                  else (case nextNode of
                          None \<Rightarrow> (returnValue, searched)
                        | Some n \<Rightarrow>
                            (let (r, tr) = recursion_IdCallSync heap nodeList callback data n
                                             returnValue visitedNodes'
                             in (r, searched @ tr)))))"
  by pat_completeness auto
termination
proof (relation "measure (\<lambda>(heap, nodeList, callback, data, node, lastValue, visitedNodes).
    card (set nodeList - set visitedNodes - {node}))", goal_cases)
  case 1
  show ?case by simp
next
  case (2 heap nodeList callback data node lastValue visitedNodes vn rv li hr fd nxt seen sr n)
  have nonvisited: "\<not> includes_js (visitedNodes @ [node]) (Some n)"
    using 2 by simp
  have "find (\<lambda>nd. looseEq (idName (getNode Undefined heap nd))
           (linkName (getNode Undefined heap node))) nodeList = Some n"
    using 2 by (simp add: find_js_def)
  then have "n \<in> set nodeList"
    by (auto simp: find_Some_iff)
  then have "n \<in> set nodeList - set visitedNodes - {node}"
    using nonvisited by (auto simp: includes_js_def)
  then have "card (set nodeList - set visitedNodes - {node} - {n})
      < card (set nodeList - set visitedNodes - {node})"
    by (intro psubset_card_mono) auto
  moreover have "set nodeList - set (visitedNodes @ [node]) - {n}
      = set nodeList - set visitedNodes - {node} - {n}"
    by auto
  ultimately show ?case using 2 by simp
qed

definition walkChainIdCallSync ::
  "(idval, 'v) node list \<Rightarrow> addr list \<Rightarrow> (addr \<Rightarrow> 'u option \<Rightarrow> 'd \<Rightarrow> 'u option) \<Rightarrow>
   addr \<Rightarrow> 'd \<Rightarrow> 'u option \<times> 'u option event list" where
  "walkChainIdCallSync heap nodeList callback startNode data =
     recursion_IdCallSync heap nodeList callback data startNode None []"

function recursion_IdCall ::
  "(idval, 'v) node list \<Rightarrow> addr list \<Rightarrow> (addr \<Rightarrow> 'u option \<Rightarrow> 'd \<Rightarrow> 'u option promise) \<Rightarrow> 'd \<Rightarrow>
   addr \<Rightarrow> 'u option \<Rightarrow> addr list \<Rightarrow> nat \<Rightarrow> 'u option \<times> nat \<times> (nat \<times> 'u option event) list" where
  "recursion_IdCall heap nodeList callback data node lastValue visitedNodes now =
     (let visitedNodes' = visitedNodes @ [node];
          pending = callback node lastValue data;
          resumed = now + delay pending;
          returnValue = outcome pending;
          linkId = linkName (getNode Undefined heap node);
          here = [(now, Visit node), (now, Invoke node lastValue), (resumed, Settle node returnValue)]
      in if linkId = Undefined then (returnValue, resumed, here)
         else (let (nextNode, seen) =
                     find_js (\<lambda>nd. looseEq (idName (getNode Undefined heap nd)) linkId) nodeList;
                   searched = here @ map (\<lambda>nd. (resumed, Compare nd)) seen
               in if includes_js visitedNodes' nextNode then (returnValue, resumed, searched)
                  else (case nextNode of
                          None \<Rightarrow> (returnValue, resumed, searched)
                        | Some n \<Rightarrow>
                            (let (r, t, tr) = recursion_IdCall heap nodeList callback data n
                                                returnValue visitedNodes' resumed
                             in (r, t, searched @ tr)))))"
  by pat_completeness auto
termination
proof (relation "measure (\<lambda>(heap, nodeList, callback, data, node, lastValue, visitedNodes, now).
    card (set nodeList - set visitedNodes - {node}))", goal_cases)
  case 1
  show ?case by simp
next
  case (2 heap nodeList callback data node lastValue visitedNodes now vn pe re rv li hr fd nxt seen sr n)
  have nonvisited: "\<not> includes_js (visitedNodes @ [node]) (Some n)"
    using 2 by simp
  have "find (\<lambda>nd. looseEq (idName (getNode Undefined heap nd))
           (linkName (getNode Undefined heap node))) nodeList = Some n"
    using 2 by (simp add: find_js_def)
  then have "n \<in> set nodeList"
    by (auto simp: find_Some_iff)
  then have "n \<in> set nodeList - set visitedNodes - {node}"
    using nonvisited by (auto simp: includes_js_def)
  then have "card (set nodeList - set visitedNodes - {node} - {n})
      < card (set nodeList - set visitedNodes - {node})"
    by (intro psubset_card_mono) auto
  moreover have "set nodeList - set (visitedNodes @ [node]) - {n}
      = set nodeList - set visitedNodes - {node} - {n}"
    by auto
  ultimately show ?case using 2 by simp
qed

definition walkChainIdCall ::
  "(idval, 'v) node list \<Rightarrow> addr list \<Rightarrow> (addr \<Rightarrow> 'u option \<Rightarrow> 'd \<Rightarrow> 'u option promise) \<Rightarrow>
   addr \<Rightarrow> 'd \<Rightarrow> 'u option \<times> nat \<times> (nat \<times> 'u option event) list" where
  "walkChainIdCall heap nodeList callback startNode data =
     recursion_IdCall heap nodeList callback data startNode None [] 0"

function recursion_IdMerge ::
  "(idval, 'v) node list \<Rightarrow> addr list \<Rightarrow> ('v option \<Rightarrow> 'v option \<Rightarrow> 'v option) \<Rightarrow>
   addr \<Rightarrow> addr list \<Rightarrow> 'v option \<times> 'v option event list" where
  "recursion_IdMerge heap nodeList mergeFunction node visitedNodes =
     (let visitedNodes' = visitedNodes @ [node];
          localProperty = mergeProperty (getNode Undefined heap node);
          linkId = linkName (getNode Undefined heap node)
      in if linkId = Undefined then (localProperty, [Visit node])
         else (let (nextNode, seen) =
                     find_js (\<lambda>nd. looseEq (idName (getNode Undefined heap nd)) linkId) nodeList;
                   searched = Visit node # map Compare seen
               in if includes_js visitedNodes' nextNode then (localProperty, searched)
                  else (case nextNode of
                          None \<Rightarrow> (localProperty, searched)
                        | Some n \<Rightarrow>
                            (if localProperty = None
                             then (let (r, tr) = recursion_IdMerge heap nodeList mergeFunction n
                                                   visitedNodes'
                                   in (r, searched @ tr))
                             else (let (r, tr) = recursion_IdMerge heap nodeList mergeFunction n
                                                   visitedNodes'
                                   in (mergeFunction r localProperty,
                                       searched @ tr @ [Merge r localProperty]))))))"
  by pat_completeness auto
termination
proof (relation "measure (\<lambda>(heap, nodeList, mergeFunction, node, visitedNodes).
    card (set nodeList - set visitedNodes - {node}))", goal_cases)
  case 1
  show ?case by simp
next
  case (2 heap nodeList mergeFunction node visitedNodes vn lp li fd nxt seen sr n)
  have nonvisited: "\<not> includes_js (visitedNodes @ [node]) (Some n)"
    using 2 by simp
  have "find (\<lambda>nd. looseEq (idName (getNode Undefined heap nd))
           (linkName (getNode Undefined heap node))) nodeList = Some n"
    using 2 by (simp add: find_js_def)
  then have "n \<in> set nodeList"
    by (auto simp: find_Some_iff)
  then have "n \<in> set nodeList - set visitedNodes - {node}"
    using nonvisited by (auto simp: includes_js_def)
  then have "card (set nodeList - set visitedNodes - {node} - {n})
      < card (set nodeList - set visitedNodes - {node})"
    by (intro psubset_card_mono) auto
  moreover have "set nodeList - set (visitedNodes @ [node]) - {n}
      = set nodeList - set visitedNodes - {node} - {n}"
    by auto
  ultimately show ?case using 2 by simp
next
  case (3 heap nodeList mergeFunction node visitedNodes vn lp li fd nxt seen sr n)
  have nonvisited: "\<not> includes_js (visitedNodes @ [node]) (Some n)"
    using 3 by simp
  have "find (\<lambda>nd. looseEq (idName (getNode Undefined heap nd))
           (linkName (getNode Undefined heap node))) nodeList = Some n"
    using 3 by (simp add: find_js_def)
  then have "n \<in> set nodeList"
    by (auto simp: find_Some_iff)
  then have "n \<in> set nodeList - set visitedNodes - {node}"
    using nonvisited by (auto simp: includes_js_def)
  then have "card (set nodeList - set visitedNodes - {node} - {n})
      < card (set nodeList - set visitedNodes - {node})"
    by (intro psubset_card_mono) auto
  moreover have "set nodeList - set (visitedNodes @ [node]) - {n}
      = set nodeList - set visitedNodes - {node} - {n}"
    by auto
  ultimately show ?case using 3 by simp
qed

definition walkChainIdMerge ::
  "(idval, 'v) node list \<Rightarrow> addr list \<Rightarrow> ('v option \<Rightarrow> 'v option \<Rightarrow> 'v option) \<Rightarrow> addr \<Rightarrow>
   'v option \<times> 'v option event list" where
  "walkChainIdMerge heap nodeList mergeFunction startNode =
     recursion_IdMerge heap nodeList mergeFunction startNode []"


text \<open>The defining equations are unfolded by hand, one step at a time.\<close>

declare recursion_CallSync.simps [simp del]
declare recursion_Call.simps [simp del]
declare recursion_Merge.simps [simp del]
declare recursion_IdCallSync.simps [simp del]
declare recursion_IdCall.simps [simp del]
declare recursion_IdMerge.simps [simp del]

section \<open>Reading a trace\<close>

fun visits :: "'x event list \<Rightarrow> addr list" where
  "visits [] = []"
| "visits (Visit n # tr) = n # visits tr"
| "visits (e # tr) = visits tr"

fun compares :: "'x event list \<Rightarrow> addr list" where
  "compares [] = []"
| "compares (Compare n # tr) = n # compares tr"
| "compares (e # tr) = compares tr"

fun invocations :: "'x event list \<Rightarrow> (addr \<times> 'x) list" where
  "invocations [] = []"
| "invocations (Invoke n a # tr) = (n, a) # invocations tr"
| "invocations (e # tr) = invocations tr"

fun merges :: "'x event list \<Rightarrow> ('x \<times> 'x) list" where
  "merges [] = []"
| "merges (Merge a b # tr) = (a, b) # merges tr"
| "merges (e # tr) = merges tr"

text \<open>The events of an asynchronous traversal without their times.\<close>

definition untimed :: "(nat \<times> 'x event) list \<Rightarrow> 'x event list" where
  "untimed tr = map snd tr"

text \<open>The times of a timed trace never decrease, and none is before \<open>now\<close>.\<close>

fun orderedFrom :: "nat \<Rightarrow> (nat \<times> 'e) list \<Rightarrow> bool" where
  "orderedFrom now [] = True"
| "orderedFrom now ((t, e) # tr) = (now \<le> t \<and> orderedFrom t tr)"

section \<open>Chains\<close>

text \<open>
  The next node of a node, as each family of traversals resolves it: the link field itself,
  or the identifier lookup of lines 180 to 186 (the guard on \<^verbatim>\<open>undefined\<close>, then
  \<^verbatim>\<open>nodeList.find\<close>).
\<close>

definition nextDirect :: "(addr option, 'v) node list \<Rightarrow> addr \<Rightarrow> addr option" where
  "nextDirect heap = (\<lambda>node. linkName (getNode None heap node))"

definition matches :: "(idval, 'v) node list \<Rightarrow> idval \<Rightarrow> addr \<Rightarrow> bool" where
  "matches heap linkId = (\<lambda>nd. looseEq (idName (getNode Undefined heap nd)) linkId)"

definition nextId :: "(idval, 'v) node list \<Rightarrow> addr list \<Rightarrow> addr \<Rightarrow> addr option" where
  "nextId heap nodeList = (\<lambda>node.
     (let linkId = linkName (getNode Undefined heap node)
      in if linkId = Undefined then None
         else fst (find_js (matches heap linkId) nodeList)))"

text \<open>The nodes that can be reached from the start node along next-node steps.\<close>

definition reachable :: "(addr \<Rightarrow> addr option) \<Rightarrow> addr \<Rightarrow> addr set" where
  "reachable next startNode = {n. (startNode, n) \<in> {(a, b). next a = Some b}\<^sup>*}"

text \<open>
  \<open>follows next visitedNodes node path\<close>: the path starts at the node, goes from each
  node to its next node, and ends at the first node whose next node is missing or has been
  visited already.
\<close>

fun follows :: "(addr \<Rightarrow> addr option) \<Rightarrow> addr list \<Rightarrow> addr \<Rightarrow> addr list \<Rightarrow> bool" where
  "follows next visitedNodes node [] = False"
| "follows next visitedNodes node (x # xs) =
     (x = node \<and>
      (if includes_js (visitedNodes @ [node]) (next node) then xs = []
       else (case next node of
               None \<Rightarrow> xs = []
             | Some n \<Rightarrow> follows next (visitedNodes @ [node]) n xs)))"

text \<open>
  The calls a call traversal is expected to make along a path: each node once, in order,
  each with the value the call before it returned.
\<close>

fun threaded ::
  "(addr \<Rightarrow> 'a \<Rightarrow> 'd \<Rightarrow> 'a) \<Rightarrow> 'd \<Rightarrow> 'a \<Rightarrow> addr list \<Rightarrow> (addr \<times> 'a) list" where
  "threaded callback data lastValue [] = []"
| "threaded callback data lastValue (n # ns) =
     (n, lastValue) # threaded callback data (callback n lastValue data) ns"

text \<open>
  The sequential reading of an asynchronous traversal: a synchronous trace in which every
  call of the callback is followed at once by the fulfilment of the promise it returned.
\<close>

fun withSettles ::
  "(addr \<Rightarrow> 'a \<Rightarrow> 'd \<Rightarrow> 'a promise) \<Rightarrow> 'd \<Rightarrow> 'a event list \<Rightarrow> 'a event list" where
  "withSettles callback data [] = []"
| "withSettles callback data (Invoke n a # tr) =
     Invoke n a # Settle n (outcome (callback n a data)) # withSettles callback data tr"
| "withSettles callback data (e # tr) = e # withSettles callback data tr"

text \<open>
  The merge along a path as the specification words it: the value of a node is
  \<open>merge(valueFromRestOfChain, localValueAtThisNode)\<close>, a node without a value is skipped,
  and the last node of the path contributes its own value.
\<close>

fun mergeAlong ::
  "(addr \<Rightarrow> 'v option) \<Rightarrow> ('v option \<Rightarrow> 'v option \<Rightarrow> 'v option) \<Rightarrow> addr list \<Rightarrow> 'v option" where
  "mergeAlong prop mergeFunction [] = None"
| "mergeAlong prop mergeFunction [n] = prop n"
| "mergeAlong prop mergeFunction (n # m # ns) =
     (case prop n of
        None \<Rightarrow> mergeAlong prop mergeFunction (m # ns)
      | Some v \<Rightarrow> mergeFunction (mergeAlong prop mergeFunction (m # ns)) (Some v))"

text \<open>
  The calls of the merge function along a path, in the order they are made (from the far
  end back to the start): one for each node but the last that has a value, with the result
  of the farther nodes first and the node's own value second.
\<close>

fun mergeCalls ::
  "(addr \<Rightarrow> 'v option) \<Rightarrow> ('v option \<Rightarrow> 'v option \<Rightarrow> 'v option) \<Rightarrow> addr list \<Rightarrow>
   ('v option \<times> 'v option) list" where
  "mergeCalls prop mergeFunction [] = []"
| "mergeCalls prop mergeFunction [n] = []"
| "mergeCalls prop mergeFunction (n # m # ns) =
     mergeCalls prop mergeFunction (m # ns) @
     (case prop n of
        None \<Rightarrow> []
      | Some v \<Rightarrow> [(mergeAlong prop mergeFunction (m # ns), Some v)])"

definition propDirect :: "(addr option, 'v) node list \<Rightarrow> addr \<Rightarrow> 'v option" where
  "propDirect heap = (\<lambda>node. mergeProperty (getNode None heap node))"

definition propId :: "(idval, 'v) node list \<Rightarrow> addr \<Rightarrow> 'v option" where
  "propId heap = (\<lambda>node. mergeProperty (getNode Undefined heap node))"


text \<open>
  The walk has stopped at the last node of a path: that node has no next node, or its next
  node is a node of the path.
\<close>

definition stopsAt :: "(addr \<Rightarrow> addr option) \<Rightarrow> addr list \<Rightarrow> bool" where
  "stopsAt next p = (next (last p) = None \<or> next (last p) \<in> Some ` set p)"

text \<open>
  At most one call of the callback is pending at any time: a call is made, a node is
  pushed and the collection is searched only while no call is pending, and a completion is
  that of the pending call. The first argument is the node of the pending call, if any.
\<close>

fun oneAtATime :: "addr option \<Rightarrow> 'x event list \<Rightarrow> bool" where
  "oneAtATime pending [] = (pending = None)"
| "oneAtATime pending (Settle n v # tr) = (pending = Some n \<and> oneAtATime None tr)"
| "oneAtATime pending (Invoke n a # tr) = (pending = None \<and> oneAtATime (Some n) tr)"
| "oneAtATime pending (e # tr) = (pending = None \<and> oneAtATime None tr)"

text \<open>The synchronous callback that returns what the asynchronous one is fulfilled with.\<close>

definition resolved ::
  "(addr \<Rightarrow> 'a \<Rightarrow> 'd \<Rightarrow> 'a promise) \<Rightarrow> addr \<Rightarrow> 'a \<Rightarrow> 'd \<Rightarrow> 'a" where
  "resolved callback = (\<lambda>node lastValue data. outcome (callback node lastValue data))"

section \<open>The examples of the specification\<close>

text \<open>
  Three nodes A, B, C at the addresses 0, 1, 2, linked A to B to C, with the ids
  \<^verbatim>\<open>"a"\<close>, \<^verbatim>\<open>"b"\<close>, \<^verbatim>\<open>"c"\<close> and the property values \<^verbatim>\<open>{x:1}\<close>, \<^verbatim>\<open>{y:2}\<close>,
  \<^verbatim>\<open>{x:3,z:4}\<close>. A property value is an object literal: its keys in order, each with
  its value.
\<close>

type_synonym propval = "(string \<times> int) list"

definition chainABC :: "(addr option, propval) node list" where
  "chainABC =
     [\<lparr>linkName = Some 1, idName = Str ''a'', mergeProperty = Some [(''x'', 1)]\<rparr>,
      \<lparr>linkName = Some 2, idName = Str ''b'', mergeProperty = Some [(''y'', 2)]\<rparr>,
      \<lparr>linkName = None, idName = Str ''c'', mergeProperty = Some [(''x'', 3), (''z'', 4)]\<rparr>]"

text \<open>The same chain with the property of B undefined.\<close>

definition chainAC :: "(addr option, propval) node list" where
  "chainAC =
     [\<lparr>linkName = Some 1, idName = Str ''a'', mergeProperty = Some [(''x'', 1)]\<rparr>,
      \<lparr>linkName = Some 2, idName = Str ''b'', mergeProperty = None\<rparr>,
      \<lparr>linkName = None, idName = Str ''c'', mergeProperty = Some [(''x'', 3), (''z'', 4)]\<rparr>]"

text \<open>Two nodes A and B that link to each other.\<close>

definition cycleAB :: "(addr option, propval) node list" where
  "cycleAB =
     [\<lparr>linkName = Some 1, idName = Str ''a'', mergeProperty = Some [(''x'', 1)]\<rparr>,
      \<lparr>linkName = Some 0, idName = Str ''b'', mergeProperty = Some [(''y'', 2)]\<rparr>]"

text \<open>A links to B, B is the end of the chain and has no property value.\<close>

definition chainAB :: "(addr option, propval) node list" where
  "chainAB =
     [\<lparr>linkName = Some 1, idName = Str ''a'', mergeProperty = Some [(''x'', 1)]\<rparr>,
      \<lparr>linkName = None, idName = Str ''b'', mergeProperty = None\<rparr>]"

text \<open>
  The callback \<^verbatim>\<open>(node, acc) => acc === undefined ? node.id : acc + node.id\<close> on nodes
  whose id is a string; \<open>text_js\<close> is the string \<^verbatim>\<open>+\<close> appends for an id.
\<close>

fun text_js :: "idval \<Rightarrow> string" where
  "text_js (Str s) = s"
| "text_js Undefined = ''undefined''"
| "text_js Null = ''null''"

definition appendId ::
  "('l, 'v) node list \<Rightarrow> 'l \<Rightarrow> addr \<Rightarrow> string option \<Rightarrow> unit \<Rightarrow> string option" where
  "appendId heap absent node acc data =
     (case acc of
        None \<Rightarrow> Some (text_js (idName (getNode absent heap node)))
      | Some a \<Rightarrow> Some (a @ text_js (idName (getNode absent heap node))))"

text \<open>
  The same callback returning promises that take 5, 50 and 1 units of time on A, B and C:
  the call on C completes faster than the call on B.
\<close>

definition appendIdLater ::
  "('l, 'v) node list \<Rightarrow> 'l \<Rightarrow> addr \<Rightarrow> string option \<Rightarrow> unit \<Rightarrow> string option promise" where
  "appendIdLater heap absent node acc data =
     Promise (if node = 0 then 5 else if node = 1 then 50 else 1) (appendId heap absent node acc data)"

text \<open>
  The shallow override \<^verbatim>\<open>(farther, nearer) => ({...farther, ...nearer})\<close>: a key of the
  nearer object replaces the value of that key, a new key is added at the end; spreading
  \<^verbatim>\<open>undefined\<close> adds nothing.
\<close>

fun assign :: "propval \<Rightarrow> string \<times> int \<Rightarrow> propval" where
  "assign [] kv = [kv]"
| "assign ((k', v') # obj) (k, v) =
     (if k' = k then (k, v) # obj else (k', v') # assign obj (k, v))"

definition spread :: "propval option \<Rightarrow> propval" where
  "spread obj = (case obj of None \<Rightarrow> [] | Some kvs \<Rightarrow> kvs)"

definition shallowMerge :: "propval option \<Rightarrow> propval option \<Rightarrow> propval option" where
  "shallowMerge farther nearer = Some (foldl assign (spread farther) (spread nearer))"

text \<open>
  A collection for the identifier traversals: the start node S at address 0 links to the
  identifier \<^verbatim>\<open>"p"\<close>, which the nodes at 1 and 2 share; neither of them has a link.
\<close>

definition heapShared :: "(idval, propval) node list" where
  "heapShared =
     [\<lparr>linkName = Str ''p'', idName = Str ''s'', mergeProperty = Some [(''x'', 1)]\<rparr>,
      \<lparr>linkName = Undefined, idName = Str ''p'', mergeProperty = Some [(''y'', 2)]\<rparr>,
      \<lparr>linkName = Undefined, idName = Str ''p'', mergeProperty = Some [(''z'', 3)]\<rparr>]"

text \<open>
  A collection with absent-like values: the node at 0 has no link, the node at 1 links to
  \<^verbatim>\<open>null\<close>, the node at 2 has the id \<^verbatim>\<open>"q"\<close>, the node at 3 has no id.
\<close>

definition heapAbsent :: "(idval, propval) node list" where
  "heapAbsent =
     [\<lparr>linkName = Undefined, idName = Str ''s'', mergeProperty = Some [(''x'', 1)]\<rparr>,
      \<lparr>linkName = Null, idName = Str ''t'', mergeProperty = Some [(''y'', 2)]\<rparr>,
      \<lparr>linkName = Undefined, idName = Str ''q'', mergeProperty = Some [(''z'', 3)]\<rparr>,
      \<lparr>linkName = Undefined, idName = Undefined, mergeProperty = Some [(''w'', 4)]\<rparr>]"

text \<open>
  The chain A, B for the identifier traversals: A at address 0 has the id \<^verbatim>\<open>"a"\<close>, the
  value \<^verbatim>\<open>{x:1}\<close> and links to the identifier \<^verbatim>\<open>"b"\<close>; B at address 1 has the id
  \<^verbatim>\<open>"b"\<close>, no link and no property value.
\<close>

definition chainIdAB :: "(idval, propval) node list" where
  "chainIdAB =
     [\<lparr>linkName = Str ''b'', idName = Str ''a'', mergeProperty = Some [(''x'', 1)]\<rparr>,
      \<lparr>linkName = Undefined, idName = Str ''b'', mergeProperty = None\<rparr>]"

text \<open>The merge function \<^verbatim>\<open>(farther, nearer) => farther\<close>.\<close>

definition keepFarther :: "propval option \<Rightarrow> propval option \<Rightarrow> propval option" where
  "keepFarther farther nearer = farther"

section \<open>Traces and chains: general facts\<close>

lemma visits_append [simp]: "visits (a @ b) = visits a @ visits b"
  by (induction a rule: visits.induct) auto

lemma invocations_append [simp]: "invocations (a @ b) = invocations a @ invocations b"
  by (induction a rule: invocations.induct) auto

lemma follows_hd: "follows next vis node p \<Longrightarrow> p \<noteq> [] \<and> hd p = node"
  by (cases p) auto

lemma follows_distinct:
  "follows next vis node p \<Longrightarrow> node \<notin> set vis \<Longrightarrow> distinct vis \<Longrightarrow> distinct (vis @ p)"
proof (induction p arbitrary: vis node)
  case Nil
  then show ?case by simp
next
  case (Cons x xs)
  then have x: "x = node" by simp
  show ?case
  proof (cases "includes_js (vis @ [node]) (next node)")
    case True
    then show ?thesis using Cons x by simp
  next
    case False
    show ?thesis
    proof (cases "next node")
      case None
      then show ?thesis using Cons x False by simp
    next
      case (Some n)
      then have f: "follows next (vis @ [node]) n xs" using Cons.prems False by simp
      have "n \<notin> set (vis @ [node])" using False Some by (auto simp: includes_js_def)
      moreover have "distinct (vis @ [node])" using Cons.prems by simp
      ultimately have "distinct ((vis @ [node]) @ xs)" using Cons.IH[OF f] by blast
      then show ?thesis using x by simp
    qed
  qed
qed

lemma follows_closed:
  "follows next vis node p \<Longrightarrow> a \<in> set p \<Longrightarrow> next a = Some b \<Longrightarrow> b \<in> set (vis @ p)"
proof (induction p arbitrary: vis node)
  case Nil
  then show ?case by simp
next
  case (Cons x xs)
  then have x: "x = node" by simp
  show ?case
  proof (cases "includes_js (vis @ [node]) (next node)")
    case True
    then have "xs = []" using Cons.prems by simp
    then show ?thesis using Cons.prems True x by (auto simp: includes_js_def)
  next
    case False
    show ?thesis
    proof (cases "next node")
      case None
      then have "xs = []" using Cons.prems False by simp
      then show ?thesis using Cons.prems None x by auto
    next
      case (Some n)
      then have f: "follows next (vis @ [node]) n xs" using Cons.prems False by simp
      show ?thesis
      proof (cases "a = node")
        case True
        then have "b = n" using Some Cons.prems by simp
        moreover have "n \<in> set xs" using follows_hd[OF f] by (cases xs) auto
        ultimately show ?thesis by simp
      next
        case False
        then have "a \<in> set xs" using Cons.prems x by simp
        from Cons.IH[OF f this Cons.prems(3)] show ?thesis using x by auto
      qed
    qed
  qed
qed

lemma follows_reachable:
  "follows next vis node p \<Longrightarrow> set p \<subseteq> reachable next node"
proof (induction p arbitrary: vis node)
  case Nil
  then show ?case by simp
next
  case (Cons x xs)
  then have x: "x = node" by simp
  have self: "node \<in> reachable next node" by (simp add: reachable_def)
  show ?case
  proof (cases "includes_js (vis @ [node]) (next node)")
    case True
    then show ?thesis using Cons.prems x self by simp
  next
    case False
    show ?thesis
    proof (cases "next node")
      case None
      then show ?thesis using Cons.prems False x self by simp
    next
      case (Some n)
      then have f: "follows next (vis @ [node]) n xs" using Cons.prems False by simp
      have "reachable next n \<subseteq> reachable next node"
        using Some by (auto simp: reachable_def intro: converse_rtrancl_into_rtrancl)
      then show ?thesis using Cons.IH[OF f] x self by auto
    qed
  qed
qed

lemma follows_all:
  assumes "follows next [] startNode p"
  shows "set p = reachable next startNode"
proof
  show "set p \<subseteq> reachable next startNode" using assms by (rule follows_reachable)
  show "reachable next startNode \<subseteq> set p"
  proof
    fix n assume "n \<in> reachable next startNode"
    then have "(startNode, n) \<in> {(a, b). next a = Some b}\<^sup>*" by (simp add: reachable_def)
    then show "n \<in> set p"
    proof (induction rule: rtrancl_induct)
      case base
      then show ?case using follows_hd[OF assms] by (cases p) auto
    next
      case (step y z)
      then show ?case using follows_closed[OF assms, of y z] by simp
    qed
  qed
qed

lemma follows_count:
  assumes "follows next [] startNode p"
  shows "finite (reachable next startNode) \<and> length p = card (reachable next startNode)"
proof -
  have "distinct p" using follows_distinct[OF assms] by simp
  then show ?thesis using follows_all[OF assms] distinct_card[of p] by (metis List.finite_set)
qed

lemma follows_stop:
  "follows next vis node p \<Longrightarrow> next (last p) = None \<or> next (last p) \<in> Some ` set (vis @ p)"
proof (induction p arbitrary: vis node)
  case Nil
  then show ?case by simp
next
  case (Cons x xs)
  then have x: "x = node" by simp
  show ?case
  proof (cases "includes_js (vis @ [node]) (next node)")
    case True
    then show ?thesis using Cons.prems x by (auto simp: includes_js_def)
  next
    case False
    show ?thesis
    proof (cases "next node")
      case None
      then show ?thesis using Cons.prems False x by simp
    next
      case (Some n)
      then have f: "follows next (vis @ [node]) n xs" using Cons.prems False by simp
      then have "xs \<noteq> []" using follows_hd by blast
      then show ?thesis using Cons.IH[OF f] x by auto
    qed
  qed
qed


lemma compares_append [simp]: "compares (a @ b) = compares a @ compares b"
  by (induction a rule: compares.induct) auto

lemma merges_append [simp]: "merges (a @ b) = merges a @ merges b"
  by (induction a rule: merges.induct) auto

lemma withSettles_append [simp]:
  "withSettles cb d (a @ b) = withSettles cb d a @ withSettles cb d b"
  by (induction cb d a rule: withSettles.induct) auto

lemma visits_Compare [simp]: "visits (map Compare xs) = []"
  by (induction xs) auto

lemma invocations_Compare [simp]: "invocations (map Compare xs) = []"
  by (induction xs) auto

lemma merges_Compare [simp]: "merges (map Compare xs) = []"
  by (induction xs) auto

lemma compares_Compare [simp]: "compares (map Compare xs) = xs"
  by (induction xs) auto

lemma withSettles_Compare [simp]: "withSettles cb d (map Compare xs) = map Compare xs"
  by (induction xs) auto

lemma visits_withSettles [simp]: "visits (withSettles cb d tr) = visits tr"
  by (induction cb d tr rule: withSettles.induct) auto

lemma invocations_withSettles [simp]: "invocations (withSettles cb d tr) = invocations tr"
  by (induction cb d tr rule: withSettles.induct) auto

lemma compares_withSettles [simp]: "compares (withSettles cb d tr) = compares tr"
  by (induction cb d tr rule: withSettles.induct) auto

lemma CallSync_follows:
  "follows (nextDirect heap) visitedNodes node
     (visits (snd (recursion_CallSync heap callback data node lastValue visitedNodes)))"
proof (induction heap callback data node lastValue visitedNodes rule: recursion_CallSync.induct)
  case (1 heap callback data node lastValue visitedNodes)
  show ?case
    using 1
    apply (subst recursion_CallSync.simps)
    apply (auto simp: Let_def nextDirect_def split: option.splits prod.splits)
    done
qed

lemma CallSync_threaded:
  "invocations (snd (recursion_CallSync heap callback data node lastValue visitedNodes))
     = threaded callback data lastValue
         (visits (snd (recursion_CallSync heap callback data node lastValue visitedNodes)))"
proof (induction heap callback data node lastValue visitedNodes rule: recursion_CallSync.induct)
  case (1 heap callback data node lastValue visitedNodes)
  show ?case
    using 1
    apply (subst (1 2) recursion_CallSync.simps)
    apply (auto simp: Let_def split: option.splits prod.splits)
    done
qed

lemma CallSync_result:
  "fst (recursion_CallSync heap callback data node lastValue visitedNodes)
     = foldl (\<lambda>acc n. callback n acc data) lastValue
         (visits (snd (recursion_CallSync heap callback data node lastValue visitedNodes)))"
proof (induction heap callback data node lastValue visitedNodes rule: recursion_CallSync.induct)
  case (1 heap callback data node lastValue visitedNodes)
  show ?case
    using 1
    apply (subst (1 2) recursion_CallSync.simps)
    apply (auto simp: Let_def split: option.splits prod.splits)
    done
qed

lemma IdCallSync_follows:
  "follows (nextId heap nodeList) visitedNodes node
     (visits (snd (recursion_IdCallSync heap nodeList callback data node lastValue visitedNodes)))"
proof (induction heap nodeList callback data node lastValue visitedNodes
    rule: recursion_IdCallSync.induct)
  case (1 heap nodeList callback data node lastValue visitedNodes)
  show ?case
    using 1
    apply (subst recursion_IdCallSync.simps)
    apply (auto simp: Let_def nextId_def matches_def split: option.splits prod.splits)
    done
qed

lemma IdCallSync_threaded:
  "invocations (snd (recursion_IdCallSync heap nodeList callback data node lastValue visitedNodes))
     = threaded callback data lastValue
         (visits (snd (recursion_IdCallSync heap nodeList callback data node lastValue visitedNodes)))"
proof (induction heap nodeList callback data node lastValue visitedNodes
    rule: recursion_IdCallSync.induct)
  case (1 heap nodeList callback data node lastValue visitedNodes)
  show ?case
    using 1
    apply (subst (1 2) recursion_IdCallSync.simps)
    apply (auto simp: Let_def split: option.splits prod.splits)
    done
qed

lemma IdCallSync_result:
  "fst (recursion_IdCallSync heap nodeList callback data node lastValue visitedNodes)
     = foldl (\<lambda>acc n. callback n acc data) lastValue
         (visits (snd (recursion_IdCallSync heap nodeList callback data node lastValue visitedNodes)))"
proof (induction heap nodeList callback data node lastValue visitedNodes
    rule: recursion_IdCallSync.induct)
  case (1 heap nodeList callback data node lastValue visitedNodes)
  show ?case
    using 1
    apply (subst (1 2) recursion_IdCallSync.simps)
    apply (auto simp: Let_def split: option.splits prod.splits)
    done
qed

lemma Merge_follows:
  "follows (nextDirect heap) visitedNodes node
     (visits (snd (recursion_Merge heap mergeFunction node visitedNodes)))"
proof (induction heap mergeFunction node visitedNodes rule: recursion_Merge.induct)
  case (1 heap mergeFunction node visitedNodes)
  show ?case
    using 1
    apply (subst recursion_Merge.simps)
    apply (auto simp: Let_def nextDirect_def split: option.splits prod.splits)
    done
qed

lemma IdMerge_follows:
  "follows (nextId heap nodeList) visitedNodes node
     (visits (snd (recursion_IdMerge heap nodeList mergeFunction node visitedNodes)))"
proof (induction heap nodeList mergeFunction node visitedNodes rule: recursion_IdMerge.induct)
  case (1 heap nodeList mergeFunction node visitedNodes)
  show ?case
    using 1
    apply (subst recursion_IdMerge.simps)
    apply (auto simp: Let_def nextId_def matches_def split: option.splits prod.splits)
    done
qed


lemma follows_Cons: "follows next vis node p \<Longrightarrow> \<exists>ns. p = node # ns"
  by (cases p) auto

lemma Merge_result:
  "fst (recursion_Merge heap mergeFunction node visitedNodes)
     = mergeAlong (propDirect heap) mergeFunction
         (visits (snd (recursion_Merge heap mergeFunction node visitedNodes)))
   \<and> merges (snd (recursion_Merge heap mergeFunction node visitedNodes))
     = mergeCalls (propDirect heap) mergeFunction
         (visits (snd (recursion_Merge heap mergeFunction node visitedNodes)))"
proof (induction heap mergeFunction node visitedNodes rule: recursion_Merge.induct)
  case (1 heap mergeFunction node visitedNodes)
  let ?nx = "linkName (getNode None heap node)"
  show ?case
  proof (cases "includes_js (visitedNodes @ [node]) ?nx \<or> ?nx = None")
    case True
    then show ?thesis
      by (subst (1 2 3 4) recursion_Merge.simps) (auto simp: Let_def propDirect_def)
  next
    case False
    then obtain n where n: "?nx = Some n"
      and ni: "\<not> includes_js (visitedNodes @ [node]) ?nx" by auto
    obtain r tr where rest: "recursion_Merge heap mergeFunction n (visitedNodes @ [node]) = (r, tr)"
      by force
    have "follows (nextDirect heap) (visitedNodes @ [node]) n (visits tr)"
      using Merge_follows[of heap "visitedNodes @ [node]" n mergeFunction] rest by simp
    then obtain ns where ns: "visits tr = n # ns"
      using follows_Cons by blast
    have IH: "r = mergeAlong (propDirect heap) mergeFunction (visits tr)
        \<and> merges tr = mergeCalls (propDirect heap) mergeFunction (visits tr)"
      using 1 n ni rest by (cases "mergeProperty (getNode None heap node)") auto
    show ?thesis
      using n ni rest ns IH
      by (subst (1 2 3 4) recursion_Merge.simps)
         (auto simp: Let_def propDirect_def split: option.splits)
  qed
qed

lemma IdMerge_result:
  "fst (recursion_IdMerge heap nodeList mergeFunction node visitedNodes)
     = mergeAlong (propId heap) mergeFunction
         (visits (snd (recursion_IdMerge heap nodeList mergeFunction node visitedNodes)))
   \<and> merges (snd (recursion_IdMerge heap nodeList mergeFunction node visitedNodes))
     = mergeCalls (propId heap) mergeFunction
         (visits (snd (recursion_IdMerge heap nodeList mergeFunction node visitedNodes)))"
proof (induction heap nodeList mergeFunction node visitedNodes rule: recursion_IdMerge.induct)
  case (1 heap nodeList mergeFunction node visitedNodes)
  let ?nx = "nextId heap nodeList node"
  show ?case
  proof (cases "includes_js (visitedNodes @ [node]) ?nx \<or> ?nx = None")
    case True
    then show ?thesis
      by (subst (1 2 3 4) recursion_IdMerge.simps)
         (auto simp: Let_def propId_def nextId_def matches_def find_js_def split: if_splits)
  next
    case False
    then obtain n where n: "?nx = Some n"
      and ni: "\<not> includes_js (visitedNodes @ [node]) ?nx" by auto
    obtain r tr where rest:
      "recursion_IdMerge heap nodeList mergeFunction n (visitedNodes @ [node]) = (r, tr)"
      by force
    have "follows (nextId heap nodeList) (visitedNodes @ [node]) n (visits tr)"
      using IdMerge_follows[of heap nodeList "visitedNodes @ [node]" n mergeFunction] rest by simp
    then obtain ns where ns: "visits tr = n # ns"
      using follows_Cons by blast
    have IH: "r = mergeAlong (propId heap) mergeFunction (visits tr)
        \<and> merges tr = mergeCalls (propId heap) mergeFunction (visits tr)"
      using 1 n ni rest
      by (cases "mergeProperty (getNode Undefined heap node)")
         (auto simp: nextId_def matches_def find_js_def Let_def split: if_splits)
    show ?thesis
      using n ni rest ns IH
      by (subst (1 2 3 4) recursion_IdMerge.simps)
         (auto simp: Let_def propId_def nextId_def matches_def find_js_def
               split: option.splits if_splits)
  qed
qed


lemma Call_refines:
  "fst (recursion_Call heap callback data node lastValue visitedNodes now)
     = fst (recursion_CallSync heap (resolved callback) data node lastValue visitedNodes)
   \<and> untimed (snd (snd (recursion_Call heap callback data node lastValue visitedNodes now)))
     = withSettles callback data
         (snd (recursion_CallSync heap (resolved callback) data node lastValue visitedNodes))"
proof (induction heap callback data node lastValue visitedNodes now rule: recursion_Call.induct)
  case (1 heap callback data node lastValue visitedNodes now)
  show ?case
    using 1
    apply (subst (1 2) recursion_Call.simps)
    apply (subst (1 2) recursion_CallSync.simps)
    apply (auto simp: Let_def resolved_def untimed_def split: option.splits prod.splits)
    done
qed

lemma IdCall_refines:
  "fst (recursion_IdCall heap nodeList callback data node lastValue visitedNodes now)
     = fst (recursion_IdCallSync heap nodeList (resolved callback) data node lastValue visitedNodes)
   \<and> untimed (snd (snd (recursion_IdCall heap nodeList callback data node lastValue visitedNodes now)))
     = withSettles callback data
         (snd (recursion_IdCallSync heap nodeList (resolved callback) data node lastValue visitedNodes))"
proof (induction heap nodeList callback data node lastValue visitedNodes now
    rule: recursion_IdCall.induct)
  case (1 heap nodeList callback data node lastValue visitedNodes now)
  show ?case
    using 1
    apply (subst (1 2) recursion_IdCall.simps)
    apply (subst (1 2) recursion_IdCallSync.simps)
    apply (auto simp: Let_def resolved_def untimed_def comp_def split: option.splits prod.splits)
    done
qed

lemma orderedFrom_mono: "orderedFrom now tr \<Longrightarrow> now' \<le> now \<Longrightarrow> orderedFrom now' tr"
  by (cases tr) auto

lemma orderedFrom_same: "orderedFrom now (map (\<lambda>x. (now, f x)) xs)"
  by (induction xs) auto

lemma orderedFrom_same_append:
  "orderedFrom now tr \<Longrightarrow> orderedFrom now (map (\<lambda>x. (now, f x)) xs @ tr)"
  by (induction xs) auto

lemma Call_times:
  "orderedFrom now (snd (snd (recursion_Call heap callback data node lastValue visitedNodes now)))"
proof (induction heap callback data node lastValue visitedNodes now rule: recursion_Call.induct)
  case (1 heap callback data node lastValue visitedNodes now)
  show ?case
    using 1
    apply (subst recursion_Call.simps)
    apply (auto simp: Let_def split: option.splits prod.splits)
    done
qed

lemma IdCall_times:
  "orderedFrom now
     (snd (snd (recursion_IdCall heap nodeList callback data node lastValue visitedNodes now)))"
proof (induction heap nodeList callback data node lastValue visitedNodes now
    rule: recursion_IdCall.induct)
  case (1 heap nodeList callback data node lastValue visitedNodes now)
  show ?case
    using 1
    apply (subst recursion_IdCall.simps)
    apply (auto simp: Let_def orderedFrom_same orderedFrom_same_append
                split: option.splits prod.splits)
    done
qed

section \<open>The end of the chain in merge mode\<close>

lemma Merge_at_end:
  "nextDirect heap node = None \<or> includes_js (visitedNodes @ [node]) (nextDirect heap node)
   \<Longrightarrow> recursion_Merge heap mergeFunction node visitedNodes = (propDirect heap node, [Visit node])"
  by (subst recursion_Merge.simps) (auto simp: Let_def nextDirect_def propDirect_def)

lemma IdMerge_no_link:
  "linkName (getNode Undefined heap node) = Undefined
   \<Longrightarrow> recursion_IdMerge heap nodeList mergeFunction node visitedNodes
       = (propId heap node, [Visit node])"
  by (subst recursion_IdMerge.simps) (simp add: Let_def propId_def)

lemma IdMerge_at_end:
  "linkName (getNode Undefined heap node) = linkId \<Longrightarrow> linkId \<noteq> Undefined
   \<Longrightarrow> find (matches heap linkId) nodeList = None
       \<or> includes_js (visitedNodes @ [node]) (find (matches heap linkId) nodeList)
   \<Longrightarrow> recursion_IdMerge heap nodeList mergeFunction node visitedNodes
       = (propId heap node, Visit node # map Compare (examined (matches heap linkId) nodeList))"
  by (subst recursion_IdMerge.simps)
     (auto simp: Let_def propId_def find_js_def matches_def)

text \<open>
  Claim C5. In merge mode, when the current node is the end of the chain (its link field is
  undefined, the next node cannot be found, or the next node is a node visited already),
  the result for that node is its own local value of the merged property, present or
  undefined, and the merge function is not called at that node. First conjunct:
  \<^verbatim>\<open>walkChainMerge\<close>; second conjunct: \<^verbatim>\<open>walkChainIdMerge\<close>, where the three
  disjuncts are the absent link, the search that finds nothing, and the search that finds
  a visited node.
\<close>

theorem C5_end_of_chain_keeps_local_value:
  "(nextDirect heap node = None \<or> includes_js (visitedNodes @ [node]) (nextDirect heap node)
      \<longrightarrow> fst (recursion_Merge heap mergeFunction node visitedNodes) = propDirect heap node
        \<and> merges (snd (recursion_Merge heap mergeFunction node visitedNodes)) = [])
   \<and> (linkName (getNode Undefined heapI nodeI) = Undefined
       \<or> find (matches heapI (linkName (getNode Undefined heapI nodeI))) nodeList = None
       \<or> includes_js (visitedI @ [nodeI])
            (find (matches heapI (linkName (getNode Undefined heapI nodeI))) nodeList)
      \<longrightarrow> fst (recursion_IdMerge heapI nodeList mergeI nodeI visitedI) = propId heapI nodeI
        \<and> merges (snd (recursion_IdMerge heapI nodeList mergeI nodeI visitedI)) = [])"
proof (intro conjI impI)
  assume "nextDirect heap node = None \<or> includes_js (visitedNodes @ [node]) (nextDirect heap node)"
  then have "recursion_Merge heap mergeFunction node visitedNodes
      = (propDirect heap node, [Visit node])"
    by (rule Merge_at_end)
  then show "fst (recursion_Merge heap mergeFunction node visitedNodes) = propDirect heap node"
    and "merges (snd (recursion_Merge heap mergeFunction node visitedNodes)) = []"
    by simp_all
next
  let ?l = "linkName (getNode Undefined heapI nodeI)"
  assume stop: "?l = Undefined \<or> find (matches heapI ?l) nodeList = None
      \<or> includes_js (visitedI @ [nodeI]) (find (matches heapI ?l) nodeList)"
  have "fst (recursion_IdMerge heapI nodeList mergeI nodeI visitedI) = propId heapI nodeI
      \<and> merges (snd (recursion_IdMerge heapI nodeList mergeI nodeI visitedI)) = []"
  proof (cases "?l = Undefined")
    case True
    then show ?thesis by (simp add: IdMerge_no_link)
  next
    case False
    then show ?thesis using stop IdMerge_at_end[OF refl False, of nodeList visitedI mergeI] by auto
  qed
  then show "fst (recursion_IdMerge heapI nodeList mergeI nodeI visitedI) = propId heapI nodeI"
    and "merges (snd (recursion_IdMerge heapI nodeList mergeI nodeI visitedI)) = []"
    by simp_all
qed

theorem C5_end_of_chain_witness:
  "includes_js ([0] @ [1]) (nextDirect cycleAB 1)
   \<and> fst (recursion_Merge cycleAB shallowMerge 1 [0]) = Some [(''y'', 2)]
   \<and> merges (snd (recursion_Merge cycleAB shallowMerge 1 [0])) = []
   \<and> find (matches heapAbsent (linkName (getNode Undefined heapAbsent 1))) [0, 2] = None
   \<and> fst (recursion_IdMerge heapAbsent [0, 2] shallowMerge 1 []) = Some [(''y'', 2)]
   \<and> merges (snd (recursion_IdMerge heapAbsent [0, 2] shallowMerge 1 [])) = []"
proof -
  have a: "includes_js ([0] @ [1]) (nextDirect cycleAB 1)"
    by (simp add: includes_js_def nextDirect_def cycleAB_def getNode_def)
  have b: "find (matches heapAbsent (linkName (getNode Undefined heapAbsent 1))) [0, 2] = None"
    by (simp add: matches_def heapAbsent_def getNode_def)
  have c: "propDirect cycleAB 1 = Some [(''y'', 2)]"
    by (simp add: propDirect_def cycleAB_def getNode_def)
  have d: "propId heapAbsent 1 = Some [(''y'', 2)]"
    by (simp add: propId_def heapAbsent_def getNode_def)
  show ?thesis
    using C5_end_of_chain_keeps_local_value[of cycleAB 1 "[0]" shallowMerge heapAbsent 1 "[0, 2]" "[]"
        shallowMerge] a b c d
    by simp
qed

section \<open>An absent link in the identifier traversals\<close>

lemma IdCallSync_no_link:
  "linkName (getNode Undefined heap node) = Undefined
   \<Longrightarrow> recursion_IdCallSync heap nodeList callback data node lastValue visitedNodes
       = (callback node lastValue data, [Visit node, Invoke node lastValue])"
  by (subst recursion_IdCallSync.simps) (simp add: Let_def)

lemma IdCall_no_link:
  "linkName (getNode Undefined heap node) = Undefined
   \<Longrightarrow> recursion_IdCall heap nodeList callback data node lastValue visitedNodes now
       = (outcome (callback node lastValue data), now + delay (callback node lastValue data),
          [(now, Visit node), (now, Invoke node lastValue),
           (now + delay (callback node lastValue data),
            Settle node (outcome (callback node lastValue data)))])"
  by (subst recursion_IdCall.simps) (simp add: Let_def)

text \<open>
  Claim C6. In the identifier traversals, a node whose link field is undefined has no next
  node, and the walk stops at it before any search of the collection: the trace of the
  node holds the push, the callback (and its completion) or nothing more, and no
  comparison with an element of the collection. In particular an element whose identifier
  is absent as well is never matched: the witness has such an element (address 3), which
  \<^verbatim>\<open>find\<close> would return for an undefined link.
\<close>

theorem C6_absent_link_stops_without_search:
  assumes "linkName (getNode Undefined heap node) = Undefined"
  shows "nextId heap nodeList node = None
    \<and> recursion_IdCallSync heap nodeList callback data node lastValue visitedNodes
        = (callback node lastValue data, [Visit node, Invoke node lastValue])
    \<and> compares (snd (recursion_IdCallSync heap nodeList callback data node lastValue visitedNodes)) = []
    \<and> untimed (snd (snd (recursion_IdCall heap nodeList later data node lastValue visitedNodes now)))
        = [Visit node, Invoke node lastValue, Settle node (outcome (later node lastValue data))]
    \<and> compares (untimed (snd (snd
          (recursion_IdCall heap nodeList later data node lastValue visitedNodes now)))) = []
    \<and> recursion_IdMerge heap nodeList mergeFunction node visitedNodes
        = (propId heap node, [Visit node])
    \<and> compares (snd (recursion_IdMerge heap nodeList mergeFunction node visitedNodes)) = []"
proof -
  have "nextId heap nodeList node = None"
    using assms by (simp add: nextId_def)
  moreover have "recursion_IdCallSync heap nodeList callback data node lastValue visitedNodes
      = (callback node lastValue data, [Visit node, Invoke node lastValue])"
    using assms by (rule IdCallSync_no_link)
  moreover have "untimed (snd (snd
        (recursion_IdCall heap nodeList later data node lastValue visitedNodes now)))
      = [Visit node, Invoke node lastValue, Settle node (outcome (later node lastValue data))]"
    using assms by (simp add: IdCall_no_link untimed_def)
  moreover have "recursion_IdMerge heap nodeList mergeFunction node visitedNodes
      = (propId heap node, [Visit node])"
    using assms by (rule IdMerge_no_link)
  ultimately show ?thesis by simp
qed

theorem C6_absent_link_witness:
  "linkName (getNode Undefined heapAbsent 0) = Undefined
   \<and> find (matches heapAbsent (linkName (getNode Undefined heapAbsent 0))) [1, 3, 2] = Some 3
   \<and> nextId heapAbsent [1, 3, 2] 0 = None
   \<and> walkChainIdCallSync heapAbsent [1, 3, 2] (appendId heapAbsent Undefined) 0 ()
       = (Some ''s'', [Visit 0, Invoke 0 None])
   \<and> compares (snd (walkChainIdCallSync heapAbsent [1, 3, 2] (appendId heapAbsent Undefined) 0 ())) = []
   \<and> compares (untimed (snd (snd
        (walkChainIdCall heapAbsent [1, 3, 2] (appendIdLater heapAbsent Undefined) 0 ())))) = []
   \<and> walkChainIdMerge heapAbsent [1, 3, 2] shallowMerge 0 = (Some [(''x'', 1)], [Visit 0])"
proof -
  have a: "linkName (getNode Undefined heapAbsent 0) = Undefined"
    by (simp add: heapAbsent_def getNode_def)
  have b: "find (matches heapAbsent Undefined) [1, 3, 2] = Some 3"
    by (simp add: matches_def heapAbsent_def getNode_def)
  have c: "appendId heapAbsent Undefined 0 None () = Some ''s''"
    by (simp add: appendId_def heapAbsent_def getNode_def)
  have d: "propId heapAbsent 0 = Some [(''x'', 1)]"
    by (simp add: propId_def heapAbsent_def getNode_def)
  show ?thesis
    using C6_absent_link_stops_without_search[OF a, of "[1, 3, 2]" "appendId heapAbsent Undefined"
        "()" None "[]" "appendIdLater heapAbsent Undefined" 0 shallowMerge] a b c d
    by (simp add: walkChainIdCallSync_def walkChainIdCall_def walkChainIdMerge_def)
qed

section \<open>A present value whose farther nodes contribute nothing\<close>

lemma mergeAlong_all_absent:
  "\<forall>m \<in> set p. pv m = None
   \<Longrightarrow> mergeAlong pv mergeFunction p = None \<and> mergeCalls pv mergeFunction p = []"
  by (induction pv mergeFunction p rule: mergeAlong.induct) auto

lemma Merge_step:
  "nextDirect heap node = Some n \<Longrightarrow> \<not> includes_js (visitedNodes @ [node]) (Some n)
   \<Longrightarrow> recursion_Merge heap mergeFunction node visitedNodes
       = (let (r, tr) = recursion_Merge heap mergeFunction n (visitedNodes @ [node])
          in (case propDirect heap node of
                None \<Rightarrow> (r, Visit node # tr)
              | Some v \<Rightarrow> (mergeFunction r (Some v), Visit node # tr @ [Merge r (Some v)])))"
  by (subst recursion_Merge.simps)
     (auto simp: Let_def nextDirect_def propDirect_def split: prod.splits)

lemma IdMerge_step:
  "nextId heap nodeList node = Some n \<Longrightarrow> \<not> includes_js (visitedNodes @ [node]) (Some n)
   \<Longrightarrow> recursion_IdMerge heap nodeList mergeFunction node visitedNodes
       = (let (r, tr) = recursion_IdMerge heap nodeList mergeFunction n (visitedNodes @ [node]);
              searched = Visit node # map Compare
                (examined (matches heap (linkName (getNode Undefined heap node))) nodeList)
          in (case propId heap node of
                None \<Rightarrow> (r, searched @ tr)
              | Some v \<Rightarrow> (mergeFunction r (Some v), searched @ tr @ [Merge r (Some v)])))"
  by (subst recursion_IdMerge.simps)
     (auto simp: Let_def nextId_def propId_def matches_def find_js_def
           split: prod.splits if_splits)

lemma follows_unique:
  "follows next visitedNodes node p \<Longrightarrow> follows next visitedNodes node q \<Longrightarrow> p = q"
proof (induction p arbitrary: visitedNodes node q)
  case Nil
  then show ?case by simp
next
  case (Cons x xs)
  obtain y ys where q: "q = y # ys"
    using Cons.prems(2) by (cases q) auto
  have heads: "x = node" "y = node"
    using Cons.prems q by simp_all
  show ?case
  proof (cases "includes_js (visitedNodes @ [node]) (next node)")
    case True
    then show ?thesis using Cons.prems q by simp
  next
    case False
    show ?thesis
    proof (cases "next node")
      case None
      then show ?thesis using Cons.prems q False by simp
    next
      case (Some n)
      then have "follows next (visitedNodes @ [node]) n xs"
        and "follows next (visitedNodes @ [node]) n ys"
        using Cons.prems q False by simp_all
      then have "xs = ys" by (rule Cons.IH)
      then show ?thesis using heads q by simp
    qed
  qed
qed

lemma Merge_undefined_rest:
  assumes "propDirect heap node = Some v" and "nextDirect heap node = Some n"
    and "\<not> includes_js (visitedNodes @ [node]) (Some n)"
    and "follows (nextDirect heap) (visitedNodes @ [node]) n p"
    and "\<forall>m \<in> set p. propDirect heap m = None"
  shows "recursion_Merge heap mergeFunction node visitedNodes
    = (mergeFunction None (Some v), Visit node # map Visit p @ [Merge None (Some v)])"
proof -
  obtain r tr where rest: "recursion_Merge heap mergeFunction n (visitedNodes @ [node]) = (r, tr)"
    by force
  have path: "visits tr = p"
    using Merge_follows[of heap "visitedNodes @ [node]" n mergeFunction] rest assms(4)
    by (auto intro: follows_unique)
  have none: "r = None"
    using assms(5) path rest Merge_result[of heap mergeFunction n "visitedNodes @ [node]"]
      mergeAlong_all_absent[of p "propDirect heap" mergeFunction]
    by simp
  have "tr = map Visit p"
    using assms(4, 5) rest path
  proof (induction p arbitrary: n visitedNodes node tr r)
    case Nil
    then show ?case by simp
  next
    case (Cons x xs)
    have x: "x = n" and absent: "propDirect heap n = None"
      using Cons.prems by simp_all
    show ?case
    proof (cases "nextDirect heap n = None
        \<or> includes_js ((visitedNodes @ [node]) @ [n]) (nextDirect heap n)")
      case True
      then have "tr = [Visit n]"
        using Cons.prems(3) Merge_at_end[of heap n "visitedNodes @ [node]" mergeFunction] by simp
      moreover have "xs = []"
        using True Cons.prems(1) by (auto split: option.splits if_splits)
      ultimately show ?thesis using x by simp
    next
      case False
      then obtain k where k: "nextDirect heap n = Some k"
        and fresh: "\<not> includes_js ((visitedNodes @ [node]) @ [n]) (Some k)"
        by auto
      obtain r' tr' where rest':
        "recursion_Merge heap mergeFunction k ((visitedNodes @ [node]) @ [n]) = (r', tr')"
        by force
      have step: "tr = Visit n # tr'"
        using Cons.prems(3) rest' absent Merge_step[OF k fresh, of mergeFunction] by simp
      have f: "follows (nextDirect heap) ((visitedNodes @ [node]) @ [n]) k xs"
        using Cons.prems(1) k fresh by simp
      have "visits tr' = xs"
        using Cons.prems(4) step x by simp
      then have "tr' = map Visit xs"
        using Cons.IH[OF f _ rest'] Cons.prems(2) by simp
      then show ?thesis using step x by simp
    qed
  qed
  then show ?thesis
    using assms(1, 2, 3) rest none by (simp add: Merge_step)
qed

text \<open>
  Claim C9. In merge mode, when a node that is not the end of the chain has a property
  value and every farther node contributes nothing (the property of every node on the rest
  of the chain, the path \<open>p\<close> that follows the links from the next node, is undefined),
  the merge function is still called for that node, once, with undefined as its first
  argument: the result is \<^verbatim>\<open>mergeFunction(undefined, value)\<close>, not the value alone.
  First conjunct: \<^verbatim>\<open>walkChainMerge\<close>; second: \<^verbatim>\<open>walkChainIdMerge\<close>; third and fourth:
  the chain A, B of the claim (A has a value, B is the end and has none), for any merge
  function, in both traversals.
\<close>

theorem C9_merge_called_with_undefined_farther_result:
  "(propDirect heap node = Some v \<and> nextDirect heap node = Some n
      \<and> \<not> includes_js (visitedNodes @ [node]) (Some n)
      \<and> follows (nextDirect heap) (visitedNodes @ [node]) n p
      \<and> (\<forall>m \<in> set p. propDirect heap m = None)
      \<longrightarrow> fst (recursion_Merge heap mergeFunction node visitedNodes) = mergeFunction None (Some v)
        \<and> merges (snd (recursion_Merge heap mergeFunction node visitedNodes)) = [(None, Some v)]
        \<and> visits (snd (recursion_Merge heap mergeFunction node visitedNodes)) = node # p)
   \<and> (propId heapI nodeI = Some w \<and> nextId heapI nodeList nodeI = Some k
      \<and> \<not> includes_js (visitedI @ [nodeI]) (Some k)
      \<and> follows (nextId heapI nodeList) (visitedI @ [nodeI]) k q
      \<and> (\<forall>m \<in> set q. propId heapI m = None)
      \<longrightarrow> fst (recursion_IdMerge heapI nodeList mergeI nodeI visitedI) = mergeI None (Some w)
        \<and> merges (snd (recursion_IdMerge heapI nodeList mergeI nodeI visitedI)) = [(None, Some w)]
        \<and> visits (snd (recursion_IdMerge heapI nodeList mergeI nodeI visitedI)) = nodeI # q)
   \<and> walkChainMerge chainAB mergeAB 0
       = (mergeAB None (Some [(''x'', 1)]), [Visit 0, Visit 1, Merge None (Some [(''x'', 1)])])
   \<and> walkChainIdMerge chainIdAB [0, 1] mergeAB 0
       = (mergeAB None (Some [(''x'', 1)]),
          [Visit 0, Compare 0, Compare 1, Visit 1, Merge None (Some [(''x'', 1)])])"
proof (intro conjI impI)
  assume a: "propDirect heap node = Some v \<and> nextDirect heap node = Some n
      \<and> \<not> includes_js (visitedNodes @ [node]) (Some n)
      \<and> follows (nextDirect heap) (visitedNodes @ [node]) n p
      \<and> (\<forall>m \<in> set p. propDirect heap m = None)"
  then have "recursion_Merge heap mergeFunction node visitedNodes
      = (mergeFunction None (Some v), Visit node # map Visit p @ [Merge None (Some v)])"
    using Merge_undefined_rest[of heap node v n visitedNodes p mergeFunction] by blast
  moreover have "visits (map Visit p) = p" and "merges (map Visit p) = ([] :: ('a option \<times> 'a option) list)"
    by (induction p) simp_all
  ultimately show
    "fst (recursion_Merge heap mergeFunction node visitedNodes) = mergeFunction None (Some v)"
    and "merges (snd (recursion_Merge heap mergeFunction node visitedNodes)) = [(None, Some v)]"
    and "visits (snd (recursion_Merge heap mergeFunction node visitedNodes)) = node # p"
    by simp_all
next
  assume a: "propId heapI nodeI = Some w \<and> nextId heapI nodeList nodeI = Some k
      \<and> \<not> includes_js (visitedI @ [nodeI]) (Some k)
      \<and> follows (nextId heapI nodeList) (visitedI @ [nodeI]) k q
      \<and> (\<forall>m \<in> set q. propId heapI m = None)"
  obtain r tr where rest: "recursion_IdMerge heapI nodeList mergeI k (visitedI @ [nodeI]) = (r, tr)"
    by force
  have path: "visits tr = q"
    using IdMerge_follows[of heapI nodeList "visitedI @ [nodeI]" k mergeI] rest a
    by (auto intro: follows_unique)
  have "r = None \<and> merges tr = []"
    using a path rest IdMerge_result[of heapI nodeList mergeI k "visitedI @ [nodeI]"]
      mergeAlong_all_absent[of q "propId heapI" mergeI]
    by simp
  then have "fst (recursion_IdMerge heapI nodeList mergeI nodeI visitedI) = mergeI None (Some w)
      \<and> merges (snd (recursion_IdMerge heapI nodeList mergeI nodeI visitedI)) = [(None, Some w)]
      \<and> visits (snd (recursion_IdMerge heapI nodeList mergeI nodeI visitedI)) = nodeI # q"
    using a rest path by (simp add: IdMerge_step)
  then show "fst (recursion_IdMerge heapI nodeList mergeI nodeI visitedI) = mergeI None (Some w)"
    and "merges (snd (recursion_IdMerge heapI nodeList mergeI nodeI visitedI)) = [(None, Some w)]"
    and "visits (snd (recursion_IdMerge heapI nodeList mergeI nodeI visitedI)) = nodeI # q"
    by simp_all
next
  have n: "nextDirect chainAB 0 = Some 1" and e: "nextDirect chainAB 1 = None"
    and p: "propDirect chainAB 0 = Some [(''x'', 1)]" and q: "propDirect chainAB 1 = None"
    by (simp_all add: nextDirect_def propDirect_def chainAB_def getNode_def)
  have "recursion_Merge chainAB mergeAB 1 ([] @ [0]) = (None, [Visit 1])"
    using e q by (simp add: Merge_at_end)
  then show "walkChainMerge chainAB mergeAB 0
      = (mergeAB None (Some [(''x'', 1)]), [Visit 0, Visit 1, Merge None (Some [(''x'', 1)])])"
    using n p by (simp add: walkChainMerge_def Merge_step includes_js_def)
next
  have l: "linkName (getNode Undefined chainIdAB 1) = Undefined"
    and l0: "linkName (getNode Undefined chainIdAB 0) = Str ''b''"
    and p: "propId chainIdAB 0 = Some [(''x'', 1)]" and q: "propId chainIdAB 1 = None"
    by (simp_all add: propId_def chainIdAB_def getNode_def)
  have n: "nextId chainIdAB [0, 1] 0 = Some 1"
    by (simp add: nextId_def find_js_def matches_def chainIdAB_def getNode_def)
  have s: "examined (matches chainIdAB (Str ''b'')) [0, 1] = [0, 1]"
    by (simp add: matches_def chainIdAB_def getNode_def)
  have "recursion_IdMerge chainIdAB [0, 1] mergeAB 1 ([] @ [0]) = (None, [Visit 1])"
    using l q by (simp add: IdMerge_no_link)
  then show "walkChainIdMerge chainIdAB [0, 1] mergeAB 0
       = (mergeAB None (Some [(''x'', 1)]),
          [Visit 0, Compare 0, Compare 1, Visit 1, Merge None (Some [(''x'', 1)])])"
    using n p l0 s by (simp add: walkChainIdMerge_def IdMerge_step includes_js_def)
qed

theorem C9_merge_called_with_undefined_witness:
  "propDirect chainAB 0 = Some [(''x'', 1)] \<and> nextDirect chainAB 0 = Some 1
   \<and> \<not> includes_js ([] @ [0]) (Some 1)
   \<and> follows (nextDirect chainAB) ([] @ [0]) 1 [1]
   \<and> propDirect chainAB 1 = None
   \<and> fst (recursion_Merge chainAB keepFarther 0 []) = None
   \<and> merges (snd (recursion_Merge chainAB keepFarther 0 [])) = [(None, Some [(''x'', 1)])]
   \<and> visits (snd (recursion_Merge chainAB keepFarther 0 [])) = [0, 1]
   \<and> propId chainIdAB 0 = Some [(''x'', 1)] \<and> nextId chainIdAB [0, 1] 0 = Some 1
   \<and> follows (nextId chainIdAB [0, 1]) ([] @ [0]) 1 [1]
   \<and> propId chainIdAB 1 = None
   \<and> fst (recursion_IdMerge chainIdAB [0, 1] keepFarther 0 []) = None
   \<and> merges (snd (recursion_IdMerge chainIdAB [0, 1] keepFarther 0 []))
       = [(None, Some [(''x'', 1)])]
   \<and> visits (snd (recursion_IdMerge chainIdAB [0, 1] keepFarther 0 [])) = [0, 1]"
proof -
  have n: "nextDirect chainAB 0 = Some 1" and e: "nextDirect chainAB 1 = None"
    and p: "propDirect chainAB 0 = Some [(''x'', 1)]" and q: "propDirect chainAB 1 = None"
    by (simp_all add: nextDirect_def propDirect_def chainAB_def getNode_def)
  have i: "\<not> includes_js ([] @ [0]) (Some 1)"
    by (simp add: includes_js_def)
  have f: "follows (nextDirect chainAB) ([] @ [0]) 1 [1]"
    using e by (simp add: includes_js_def)
  have nI: "nextId chainIdAB [0, 1] 0 = Some 1" and eI: "nextId chainIdAB [0, 1] 1 = None"
    by (simp_all add: nextId_def find_js_def matches_def chainIdAB_def getNode_def)
  have pI: "propId chainIdAB 0 = Some [(''x'', 1)]" and qI: "propId chainIdAB 1 = None"
    by (simp_all add: propId_def chainIdAB_def getNode_def)
  have fI: "follows (nextId chainIdAB [0, 1]) ([] @ [0]) 1 [1]"
    using eI by (simp add: includes_js_def)
  note direct = C9_merge_called_with_undefined_farther_result[
      where heap = chainAB and node = 0 and v = "[(''x'', 1)]" and n = 1 and visitedNodes = "[]"
        and p = "[1]" and mergeFunction = keepFarther, THEN conjunct1]
  note ident = C9_merge_called_with_undefined_farther_result[
      where heapI = chainIdAB and nodeI = 0 and w = "[(''x'', 1)]" and k = 1 and visitedI = "[]"
        and q = "[1]" and nodeList = "[0, 1]" and mergeI = keepFarther,
      THEN conjunct2, THEN conjunct1]
  have d: "fst (recursion_Merge chainAB keepFarther 0 []) = None
      \<and> merges (snd (recursion_Merge chainAB keepFarther 0 [])) = [(None, Some [(''x'', 1)])]
      \<and> visits (snd (recursion_Merge chainAB keepFarther 0 [])) = [0, 1]"
    using direct n p q i f by (simp add: keepFarther_def)
  have g: "fst (recursion_IdMerge chainIdAB [0, 1] keepFarther 0 []) = None
      \<and> merges (snd (recursion_IdMerge chainIdAB [0, 1] keepFarther 0 []))
          = [(None, Some [(''x'', 1)])]
      \<and> visits (snd (recursion_IdMerge chainIdAB [0, 1] keepFarther 0 [])) = [0, 1]"
    using ident nI pI qI i fI by (simp add: keepFarther_def)
  show ?thesis using n p q i f nI pI qI fI d g by simp
qed

section \<open>Absent-like link values other than undefined\<close>

lemma examined_hd: "nodeList \<noteq> [] \<Longrightarrow> examined pred nodeList \<noteq> [] \<and> hd (examined pred nodeList) = hd nodeList"
  by (cases nodeList) auto

lemma looseEq_Null: "looseEq x Null = (x = Null \<or> x = Undefined)"
  by (cases x) auto

lemma IdCallSync_search:
  "linkName (getNode Undefined heap node) = linkId \<Longrightarrow> linkId \<noteq> Undefined
   \<Longrightarrow> recursion_IdCallSync heap nodeList callback data node lastValue visitedNodes
       = (let nextNode = find (matches heap linkId) nodeList;
              searched = [Visit node, Invoke node lastValue]
                @ map Compare (examined (matches heap linkId) nodeList)
          in if includes_js (visitedNodes @ [node]) nextNode
             then (callback node lastValue data, searched)
             else (case nextNode of
                     None \<Rightarrow> (callback node lastValue data, searched)
                   | Some n \<Rightarrow>
                       (let (r, tr) = recursion_IdCallSync heap nodeList callback data n
                                        (callback node lastValue data) (visitedNodes @ [node])
                        in (r, searched @ tr))))"
  by (subst recursion_IdCallSync.simps)
     (auto simp: Let_def matches_def find_js_def split: prod.splits option.splits)

lemma IdMerge_search:
  "linkName (getNode Undefined heap node) = linkId \<Longrightarrow> linkId \<noteq> Undefined
   \<Longrightarrow> \<exists>tr. snd (recursion_IdMerge heap nodeList mergeFunction node visitedNodes)
         = Visit node # map Compare (examined (matches heap linkId) nodeList) @ tr"
  by (subst recursion_IdMerge.simps)
     (auto simp: Let_def matches_def find_js_def split: prod.splits option.splits)

text \<open>
  Claim C10. In the identifier traversals the walk stops before the search only when the
  link field is exactly undefined. For every other link value, null among them, the
  collection is searched: the trace of the node continues with the comparisons of
  \<^verbatim>\<open>find\<close>, from the first element on, and the next node is what \<^verbatim>\<open>find\<close>
  returns. As the identifiers are compared with \<^verbatim>\<open>==\<close>, a null link matches the first
  element of the collection whose identifier is null or undefined.
\<close>

theorem C10_only_undefined_skips_the_search:
  assumes "linkName (getNode Undefined heap node) = linkId" and "linkId \<noteq> Undefined"
  shows "nextId heap nodeList node = find (matches heap linkId) nodeList
    \<and> (\<exists>tr. snd (recursion_IdCallSync heap nodeList callback data node lastValue visitedNodes)
          = [Visit node, Invoke node lastValue]
            @ map Compare (examined (matches heap linkId) nodeList) @ tr)
    \<and> compares (untimed (snd (snd
          (recursion_IdCall heap nodeList later data node lastValue visitedNodes now))))
        = compares (snd (recursion_IdCallSync heap nodeList (resolved later) data node lastValue
            visitedNodes))
    \<and> (\<exists>tr. snd (recursion_IdMerge heap nodeList mergeFunction node visitedNodes)
          = Visit node # map Compare (examined (matches heap linkId) nodeList) @ tr)
    \<and> (nodeList \<noteq> [] \<longrightarrow> examined (matches heap linkId) nodeList \<noteq> []
          \<and> hd (examined (matches heap linkId) nodeList) = hd nodeList)
    \<and> (linkId = Null \<longrightarrow>
          nextId heap nodeList node
            = find (\<lambda>nd. idName (getNode Undefined heap nd) = Null
                        \<or> idName (getNode Undefined heap nd) = Undefined) nodeList)"
proof -
  have a: "nextId heap nodeList node = find (matches heap linkId) nodeList"
    using assms by (simp add: nextId_def find_js_def)
  have b: "\<exists>tr. snd (recursion_IdCallSync heap nodeList callback data node lastValue visitedNodes)
          = [Visit node, Invoke node lastValue]
            @ map Compare (examined (matches heap linkId) nodeList) @ tr"
    by (subst IdCallSync_search[OF assms]) (auto simp: Let_def split: option.splits prod.splits)
  have c: "compares (untimed (snd (snd
          (recursion_IdCall heap nodeList later data node lastValue visitedNodes now))))
        = compares (snd (recursion_IdCallSync heap nodeList (resolved later) data node lastValue
            visitedNodes))"
    by (simp add: IdCall_refines)
  have d: "\<exists>tr. snd (recursion_IdMerge heap nodeList mergeFunction node visitedNodes)
          = Visit node # map Compare (examined (matches heap linkId) nodeList) @ tr"
    using assms by (rule IdMerge_search)
  have e: "nodeList \<noteq> [] \<longrightarrow> examined (matches heap linkId) nodeList \<noteq> []
          \<and> hd (examined (matches heap linkId) nodeList) = hd nodeList"
    by (simp add: examined_hd)
  have f: "linkId = Null \<longrightarrow>
          nextId heap nodeList node
            = find (\<lambda>nd. idName (getNode Undefined heap nd) = Null
                        \<or> idName (getNode Undefined heap nd) = Undefined) nodeList"
    using a by (simp add: matches_def looseEq_Null)
  show ?thesis using a b c d e f by blast
qed

theorem C10_null_link_witness:
  "linkName (getNode Undefined heapAbsent 1) = Null \<and> Null \<noteq> Undefined
   \<and> nextId heapAbsent [0, 1, 2, 3] 1 = Some 3
   \<and> idName (getNode Undefined heapAbsent 3) = Undefined
   \<and> walkChainIdCallSync heapAbsent [0, 1, 2, 3] (appendId heapAbsent Undefined) 1 ()
       = (Some ''tundefined'',
          [Visit 1, Invoke 1 None, Compare 0, Compare 1, Compare 2, Compare 3,
           Visit 3, Invoke 3 (Some ''t'')])"
proof -
  have a: "linkName (getNode Undefined heapAbsent 1) = Null"
    by (simp add: heapAbsent_def getNode_def)
  have b: "Null \<noteq> Undefined" by simp
  have "nextId heapAbsent [0, 1, 2, 3] 1
      = find (\<lambda>nd. idName (getNode Undefined heapAbsent nd) = Null
                  \<or> idName (getNode Undefined heapAbsent nd) = Undefined) [0, 1, 2, 3]"
    using C10_only_undefined_skips_the_search[OF a b, of "[0, 1, 2, 3]"
        "appendId heapAbsent Undefined" "()" None "[]" "appendIdLater heapAbsent Undefined" 0
        shallowMerge]
    by blast
  then have c: "nextId heapAbsent [0, 1, 2, 3] 1 = Some 3"
    by (simp add: heapAbsent_def getNode_def)
  have d: "idName (getNode Undefined heapAbsent 3) = Undefined"
    by (simp add: heapAbsent_def getNode_def)
  have e: "walkChainIdCallSync heapAbsent [0, 1, 2, 3] (appendId heapAbsent Undefined) 1 ()
       = (Some ''tundefined'',
          [Visit 1, Invoke 1 None, Compare 0, Compare 1, Compare 2, Compare 3,
           Visit 3, Invoke 3 (Some ''t'')])"
    by code_simp
  show ?thesis using a b c d e by simp
qed

section \<open>Order and threading of the callback\<close>

lemma threaded_nodes: "map fst (threaded callback data lastValue p) = p"
  by (induction p arbitrary: lastValue) auto

lemma threaded_hd: "p \<noteq> [] \<Longrightarrow> hd (threaded callback data lastValue p) = (hd p, lastValue)"
  by (cases p) auto

lemma threaded_last:
  "p \<noteq> [] \<Longrightarrow> last (threaded callback data lastValue p)
     = (last p, foldl (\<lambda>acc n. callback n acc data) lastValue (butlast p))"
proof (induction p arbitrary: lastValue)
  case Nil
  then show ?case by simp
next
  case (Cons n ns)
  then show ?case by (cases ns) auto
qed

lemma foldl_last: "p \<noteq> [] \<Longrightarrow> foldl f a p = f (foldl f a (butlast p)) (last p)"
proof -
  assume "p \<noteq> []"
  then have "p = butlast p @ [last p]" by simp
  then have "foldl f a p = foldl f a (butlast p @ [last p])" by simp
  then show ?thesis by simp
qed

lemma call_outcome:
  assumes "follows next [] startNode p"
    and "invs = threaded callback data None p"
    and "r = foldl (\<lambda>acc n. callback n acc data) None p"
  shows "distinct p \<and> map fst invs = p \<and> hd invs = (startNode, None)
    \<and> (\<exists>acc. last invs = (last p, acc) \<and> r = callback (last p) acc data)"
proof -
  have ne: "p \<noteq> []" and hd: "hd p = startNode"
    using follows_hd[OF assms(1)] by simp_all
  have "distinct p"
    using follows_distinct[OF assms(1)] by simp
  moreover have "map fst invs = p"
    using assms(2) by (simp add: threaded_nodes)
  moreover have "hd invs = (startNode, None)"
    using assms(2) ne hd by (simp add: threaded_hd)
  moreover have "last invs = (last p, foldl (\<lambda>acc n. callback n acc data) None (butlast p))"
    using assms(2) ne by (simp add: threaded_last)
  moreover have "r = callback (last p) (foldl (\<lambda>acc n. callback n acc data) None (butlast p)) data"
    using assms(3) ne foldl_last[of p "\<lambda>acc n. callback n acc data" None] by simp
  ultimately show ?thesis by blast
qed

text \<open>
  Claim C2. The synchronous call traversal calls the callback once for each visited node,
  in the order of the walk from the start node to the end: the nodes of the calls are the
  visited nodes, which are pairwise distinct and follow the links. The first call receives
  undefined as the previous value and each later call the value the call before it
  returned. The traversal returns what the callback returned for the last node visited.
  First conjunct: \<^verbatim>\<open>walkChainCallSync\<close>; second: \<^verbatim>\<open>walkChainIdCallSync\<close>; third: on
  the chain A, B, C with the ids a, b, c the result is \<^verbatim>\<open>"abc"\<close>.
\<close>

theorem C2_callback_once_per_node_in_order:
  "(let (r, tr) = walkChainCallSync heap callback startNode data
    in follows (nextDirect heap) [] startNode (visits tr) \<and> distinct (visits tr)
       \<and> map fst (invocations tr) = visits tr
       \<and> invocations tr = threaded callback data None (visits tr)
       \<and> hd (invocations tr) = (startNode, None)
       \<and> (\<exists>acc. last (invocations tr) = (last (visits tr), acc)
               \<and> r = callback (last (visits tr)) acc data))
   \<and> (let (r, tr) = walkChainIdCallSync heapI nodeList callbackI startI dataI
      in follows (nextId heapI nodeList) [] startI (visits tr) \<and> distinct (visits tr)
         \<and> map fst (invocations tr) = visits tr
         \<and> invocations tr = threaded callbackI dataI None (visits tr)
         \<and> hd (invocations tr) = (startI, None)
         \<and> (\<exists>acc. last (invocations tr) = (last (visits tr), acc)
                 \<and> r = callbackI (last (visits tr)) acc dataI))
   \<and> walkChainCallSync chainABC (appendId chainABC None) 0 ()
       = (Some ''abc'',
          [Visit 0, Invoke 0 None, Visit 1, Invoke 1 (Some ''a''), Visit 2, Invoke 2 (Some ''ab'')])"
proof (intro conjI)
  obtain r tr where w: "walkChainCallSync heap callback startNode data = (r, tr)"
    by force
  have f: "follows (nextDirect heap) [] startNode (visits tr)"
    using CallSync_follows[of heap "[]" startNode callback data None] w
    by (simp add: walkChainCallSync_def)
  have t: "invocations tr = threaded callback data None (visits tr)"
    using CallSync_threaded[of heap callback data startNode None "[]"] w
    by (simp add: walkChainCallSync_def)
  have "r = foldl (\<lambda>acc n. callback n acc data) None (visits tr)"
    using CallSync_result[of heap callback data startNode None "[]"] w
    by (simp add: walkChainCallSync_def)
  from call_outcome[OF f t this] f t w
  show "let (r, tr) = walkChainCallSync heap callback startNode data
    in follows (nextDirect heap) [] startNode (visits tr) \<and> distinct (visits tr)
       \<and> map fst (invocations tr) = visits tr
       \<and> invocations tr = threaded callback data None (visits tr)
       \<and> hd (invocations tr) = (startNode, None)
       \<and> (\<exists>acc. last (invocations tr) = (last (visits tr), acc)
               \<and> r = callback (last (visits tr)) acc data)"
    by simp
next
  obtain r tr where w: "walkChainIdCallSync heapI nodeList callbackI startI dataI = (r, tr)"
    by force
  have f: "follows (nextId heapI nodeList) [] startI (visits tr)"
    using IdCallSync_follows[of heapI nodeList "[]" startI callbackI dataI None] w
    by (simp add: walkChainIdCallSync_def)
  have t: "invocations tr = threaded callbackI dataI None (visits tr)"
    using IdCallSync_threaded[of heapI nodeList callbackI dataI startI None "[]"] w
    by (simp add: walkChainIdCallSync_def)
  have "r = foldl (\<lambda>acc n. callbackI n acc dataI) None (visits tr)"
    using IdCallSync_result[of heapI nodeList callbackI dataI startI None "[]"] w
    by (simp add: walkChainIdCallSync_def)
  from call_outcome[OF f t this] f t w
  show "let (r, tr) = walkChainIdCallSync heapI nodeList callbackI startI dataI
      in follows (nextId heapI nodeList) [] startI (visits tr) \<and> distinct (visits tr)
         \<and> map fst (invocations tr) = visits tr
         \<and> invocations tr = threaded callbackI dataI None (visits tr)
         \<and> hd (invocations tr) = (startI, None)
         \<and> (\<exists>acc. last (invocations tr) = (last (visits tr), acc)
                 \<and> r = callbackI (last (visits tr)) acc dataI)"
    by simp
next
  show "walkChainCallSync chainABC (appendId chainABC None) 0 ()
       = (Some ''abc'',
          [Visit 0, Invoke 0 None, Visit 1, Invoke 1 (Some ''a''), Visit 2, Invoke 2 (Some ''ab'')])"
    by code_simp
qed

section \<open>The arguments of the merge function\<close>

text \<open>
  Claim C3. In merge mode every call of the merge function passes the combined result of
  the farther nodes (the rest of the chain) as the first argument and the local property
  value of the current, nearer node as the second: the calls in the trace are those of
  \<open>mergeCalls\<close> along the visited nodes, and the result is \<open>mergeAlong\<close>. First
  conjunct: \<^verbatim>\<open>walkChainMerge\<close>; second: \<^verbatim>\<open>walkChainIdMerge\<close>. On the chain A, B, C
  with the values \<^verbatim>\<open>{x:1}\<close>, \<^verbatim>\<open>{y:2}\<close>, \<^verbatim>\<open>{x:3,z:4}\<close> and the shallow override
  the result is the object with x = 1, y = 2, z = 4 (its keys in the order x, z, y).
\<close>

theorem C3_merge_farther_first_nearer_second:
  "(let (r, tr) = walkChainMerge heap mergeFunction startNode
    in merges tr = mergeCalls (propDirect heap) mergeFunction (visits tr)
       \<and> r = mergeAlong (propDirect heap) mergeFunction (visits tr)
       \<and> follows (nextDirect heap) [] startNode (visits tr))
   \<and> (let (r, tr) = walkChainIdMerge heapI nodeList mergeI startI
      in merges tr = mergeCalls (propId heapI) mergeI (visits tr)
         \<and> r = mergeAlong (propId heapI) mergeI (visits tr)
         \<and> follows (nextId heapI nodeList) [] startI (visits tr))
   \<and> walkChainMerge chainABC shallowMerge 0
       = (Some [(''x'', 1), (''z'', 4), (''y'', 2)],
          [Visit 0, Visit 1, Visit 2,
           Merge (Some [(''x'', 3), (''z'', 4)]) (Some [(''y'', 2)]),
           Merge (Some [(''x'', 3), (''z'', 4), (''y'', 2)]) (Some [(''x'', 1)])])
   \<and> map_option map_of (fst (walkChainMerge chainABC shallowMerge 0))
       = Some (map_of [(''x'', 1), (''y'', 2), (''z'', 4)])"
proof (intro conjI)
  show "let (r, tr) = walkChainMerge heap mergeFunction startNode
    in merges tr = mergeCalls (propDirect heap) mergeFunction (visits tr)
       \<and> r = mergeAlong (propDirect heap) mergeFunction (visits tr)
       \<and> follows (nextDirect heap) [] startNode (visits tr)"
    using Merge_result[of heap mergeFunction startNode "[]"]
      Merge_follows[of heap "[]" startNode mergeFunction]
    by (simp add: walkChainMerge_def case_prod_beta)
next
  show "let (r, tr) = walkChainIdMerge heapI nodeList mergeI startI
      in merges tr = mergeCalls (propId heapI) mergeI (visits tr)
         \<and> r = mergeAlong (propId heapI) mergeI (visits tr)
         \<and> follows (nextId heapI nodeList) [] startI (visits tr)"
    using IdMerge_result[of heapI nodeList mergeI startI "[]"]
      IdMerge_follows[of heapI nodeList "[]" startI mergeI]
    by (simp add: walkChainIdMerge_def case_prod_beta)
next
  show w: "walkChainMerge chainABC shallowMerge 0
       = (Some [(''x'', 1), (''z'', 4), (''y'', 2)],
          [Visit 0, Visit 1, Visit 2,
           Merge (Some [(''x'', 3), (''z'', 4)]) (Some [(''y'', 2)]),
           Merge (Some [(''x'', 3), (''z'', 4), (''y'', 2)]) (Some [(''x'', 1)])])"
    by code_simp
  show "map_option map_of (fst (walkChainMerge chainABC shallowMerge 0))
       = Some (map_of [(''x'', 1), (''y'', 2), (''z'', 4)])"
    unfolding w by (auto simp: fun_eq_iff)
qed

section \<open>Nodes without a value in merge mode\<close>

lemma mergeCalls_nearer_present:
  "c \<in> set (mergeCalls pv mergeFunction p)
   \<Longrightarrow> snd c \<noteq> None \<and> snd c \<in> pv ` set (butlast p)"
proof (induction pv mergeFunction p rule: mergeCalls.induct)
  case (3 pv mergeFunction n m ns)
  show ?case
  proof (cases "c \<in> set (mergeCalls pv mergeFunction (m # ns))")
    case True
    then show ?thesis using 3(1) by auto
  next
    case False
    show ?thesis
    proof (cases "pv n")
      case None
      then show ?thesis using 3(2) False by simp
    next
      case (Some v)
      then have "snd c = pv n" using 3(2) False by simp
      then show ?thesis using Some by auto
    qed
  qed
qed simp_all

text \<open>
  Claim C4 as it is stated fails at the end of the chain. On the chain A, B, where B is
  the end and has no property value, the recursion at B returns the undefined value of B,
  and the merge function is called with that value as its first argument.
\<close>

theorem C4_value_of_end_node_reaches_merge_counterexample:
  "propDirect chainAB 1 = None
   \<and> visits (snd (walkChainMerge chainAB shallowMerge 0)) = [0, 1]
   \<and> fst (recursion_Merge chainAB shallowMerge 1 [0]) = propDirect chainAB 1
   \<and> merges (snd (walkChainMerge chainAB shallowMerge 0))
       = [(propDirect chainAB 1, Some [(''x'', 1)])]"
  by code_simp

text \<open>
  Claim C4, amended. In merge mode, at every node that is not the end of the chain and
  whose local value of the merged property is undefined, the merge function is not called
  and the result of the rest of the chain is passed through unchanged (first and second
  conjunct). The second argument of every call of the merge function is a value that is
  not undefined: the value of a visited node other than the last (third and fourth
  conjunct). On the chain A, B, C with the property of B undefined the result is the merge
  of the values of C and A only, by one call (fifth conjunct). When the property of every
  visited node is undefined, the result is undefined and the merge function is never called
  (sixth and seventh conjunct).
\<close>

theorem C4_undefined_value_is_skipped:
  "(propDirect heap node = None \<and> nextDirect heap node = Some n
      \<and> \<not> includes_js (visitedNodes @ [node]) (Some n)
      \<longrightarrow> fst (recursion_Merge heap mergeFunction node visitedNodes)
            = fst (recursion_Merge heap mergeFunction n (visitedNodes @ [node]))
        \<and> merges (snd (recursion_Merge heap mergeFunction node visitedNodes))
            = merges (snd (recursion_Merge heap mergeFunction n (visitedNodes @ [node]))))
   \<and> (propId heapI nodeI = None \<and> nextId heapI nodeList nodeI = Some k
      \<and> \<not> includes_js (visitedI @ [nodeI]) (Some k)
      \<longrightarrow> fst (recursion_IdMerge heapI nodeList mergeI nodeI visitedI)
            = fst (recursion_IdMerge heapI nodeList mergeI k (visitedI @ [nodeI]))
        \<and> merges (snd (recursion_IdMerge heapI nodeList mergeI nodeI visitedI))
            = merges (snd (recursion_IdMerge heapI nodeList mergeI k (visitedI @ [nodeI]))))
   \<and> (\<forall>c \<in> set (merges (snd (walkChainMerge heap mergeFunction startNode))).
         snd c \<noteq> None
         \<and> snd c \<in> propDirect heap
             ` set (butlast (visits (snd (walkChainMerge heap mergeFunction startNode)))))
   \<and> (\<forall>c \<in> set (merges (snd (walkChainIdMerge heapI nodeList mergeI startI))).
         snd c \<noteq> None
         \<and> snd c \<in> propId heapI
             ` set (butlast (visits (snd (walkChainIdMerge heapI nodeList mergeI startI)))))
   \<and> walkChainMerge chainAC shallowMerge 0
       = (shallowMerge (Some [(''x'', 3), (''z'', 4)]) (Some [(''x'', 1)]),
          [Visit 0, Visit 1, Visit 2, Merge (Some [(''x'', 3), (''z'', 4)]) (Some [(''x'', 1)])])
   \<and> ((\<forall>m \<in> set (visits (snd (walkChainMerge heap mergeFunction startNode))).
          propDirect heap m = None)
      \<longrightarrow> fst (walkChainMerge heap mergeFunction startNode) = None
        \<and> merges (snd (walkChainMerge heap mergeFunction startNode)) = [])
   \<and> ((\<forall>m \<in> set (visits (snd (walkChainIdMerge heapI nodeList mergeI startI))).
          propId heapI m = None)
      \<longrightarrow> fst (walkChainIdMerge heapI nodeList mergeI startI) = None
        \<and> merges (snd (walkChainIdMerge heapI nodeList mergeI startI)) = [])"
proof (intro conjI)
  show "propDirect heap node = None \<and> nextDirect heap node = Some n
      \<and> \<not> includes_js (visitedNodes @ [node]) (Some n)
      \<longrightarrow> fst (recursion_Merge heap mergeFunction node visitedNodes)
            = fst (recursion_Merge heap mergeFunction n (visitedNodes @ [node]))
        \<and> merges (snd (recursion_Merge heap mergeFunction node visitedNodes))
            = merges (snd (recursion_Merge heap mergeFunction n (visitedNodes @ [node])))"
    by (simp add: Merge_step case_prod_beta)
next
  show "propId heapI nodeI = None \<and> nextId heapI nodeList nodeI = Some k
      \<and> \<not> includes_js (visitedI @ [nodeI]) (Some k)
      \<longrightarrow> fst (recursion_IdMerge heapI nodeList mergeI nodeI visitedI)
            = fst (recursion_IdMerge heapI nodeList mergeI k (visitedI @ [nodeI]))
        \<and> merges (snd (recursion_IdMerge heapI nodeList mergeI nodeI visitedI))
            = merges (snd (recursion_IdMerge heapI nodeList mergeI k (visitedI @ [nodeI])))"
    by (simp add: IdMerge_step case_prod_beta Let_def)
next
  show "\<forall>c \<in> set (merges (snd (walkChainMerge heap mergeFunction startNode))).
         snd c \<noteq> None
         \<and> snd c \<in> propDirect heap
             ` set (butlast (visits (snd (walkChainMerge heap mergeFunction startNode))))"
    using Merge_result[of heap mergeFunction startNode "[]"] mergeCalls_nearer_present
    unfolding walkChainMerge_def by metis
next
  show "\<forall>c \<in> set (merges (snd (walkChainIdMerge heapI nodeList mergeI startI))).
         snd c \<noteq> None
         \<and> snd c \<in> propId heapI
             ` set (butlast (visits (snd (walkChainIdMerge heapI nodeList mergeI startI))))"
    using IdMerge_result[of heapI nodeList mergeI startI "[]"] mergeCalls_nearer_present
    unfolding walkChainIdMerge_def by metis
next
  show "walkChainMerge chainAC shallowMerge 0
       = (shallowMerge (Some [(''x'', 3), (''z'', 4)]) (Some [(''x'', 1)]),
          [Visit 0, Visit 1, Visit 2, Merge (Some [(''x'', 3), (''z'', 4)]) (Some [(''x'', 1)])])"
    by code_simp
next
  show "(\<forall>m \<in> set (visits (snd (walkChainMerge heap mergeFunction startNode))).
          propDirect heap m = None)
      \<longrightarrow> fst (walkChainMerge heap mergeFunction startNode) = None
        \<and> merges (snd (walkChainMerge heap mergeFunction startNode)) = []"
    using Merge_result[of heap mergeFunction startNode "[]"]
      mergeAlong_all_absent[of "visits (snd (walkChainMerge heap mergeFunction startNode))"
        "propDirect heap" mergeFunction]
    by (simp add: walkChainMerge_def)
next
  show "(\<forall>m \<in> set (visits (snd (walkChainIdMerge heapI nodeList mergeI startI))).
          propId heapI m = None)
      \<longrightarrow> fst (walkChainIdMerge heapI nodeList mergeI startI) = None
        \<and> merges (snd (walkChainIdMerge heapI nodeList mergeI startI)) = []"
    using IdMerge_result[of heapI nodeList mergeI startI "[]"]
      mergeAlong_all_absent[of "visits (snd (walkChainIdMerge heapI nodeList mergeI startI))"
        "propId heapI" mergeI]
    by (simp add: walkChainIdMerge_def)
qed

theorem C4_undefined_value_is_skipped_witness:
  "propDirect chainAC 1 = None \<and> nextDirect chainAC 1 = Some 2
   \<and> \<not> includes_js ([0] @ [1]) (Some 2)
   \<and> fst (recursion_Merge chainAC shallowMerge 1 [0]) = Some [(''x'', 3), (''z'', 4)]
   \<and> fst (recursion_Merge chainAC shallowMerge 2 ([0] @ [1])) = Some [(''x'', 3), (''z'', 4)]
   \<and> merges (snd (recursion_Merge chainAC shallowMerge 1 [0])) = []
   \<and> visits (snd (walkChainMerge chainAB shallowMerge 1)) = [1]
   \<and> propDirect chainAB 1 = None
   \<and> fst (walkChainMerge chainAB shallowMerge 1) = None"
proof -
  have a: "propDirect chainAC 1 = None \<and> nextDirect chainAC 1 = Some 2
      \<and> \<not> includes_js ([0] @ [1]) (Some 2)"
    by (simp add: propDirect_def nextDirect_def chainAC_def getNode_def includes_js_def)
  have b: "recursion_Merge chainAC shallowMerge 2 ([0] @ [1]) = (Some [(''x'', 3), (''z'', 4)], [Visit 2])"
    by code_simp
  have c: "visits (snd (walkChainMerge chainAB shallowMerge 1)) = [1]"
    by code_simp
  have d: "propDirect chainAB 1 = None"
    by (simp add: propDirect_def chainAB_def getNode_def)
  note t = C4_undefined_value_is_skipped[of chainAC 1 2 "[0]" shallowMerge]
  note u = C4_undefined_value_is_skipped[of chainAB _ _ _ shallowMerge _ _ _ _ _ _ 1]
  have e: "fst (recursion_Merge chainAC shallowMerge 1 [0]) = Some [(''x'', 3), (''z'', 4)]
      \<and> merges (snd (recursion_Merge chainAC shallowMerge 1 [0])) = []"
    using t[THEN conjunct1] a b by simp
  have f: "fst (walkChainMerge chainAB shallowMerge 1) = None"
    using u[THEN conjunct2, THEN conjunct2, THEN conjunct2, THEN conjunct2, THEN conjunct2,
        THEN conjunct1] c d
    by simp
  show ?thesis using a b c d e f by simp
qed

section \<open>The next node by identifier\<close>

lemma find_first_match:
  "\<forall>x \<in> set pre. \<not> pred x \<Longrightarrow> pred m \<Longrightarrow> find pred (pre @ m # post) = Some m"
  by (induction pre) auto

lemma find_no_match: "\<forall>x \<in> set nodeList. \<not> pred x \<Longrightarrow> find pred nodeList = None"
  by (induction nodeList) auto

lemma IdCallSync_visits:
  "visits (snd (recursion_IdCallSync heap nodeList callback data node lastValue visitedNodes))
     = node # (case nextId heap nodeList node of
                 None \<Rightarrow> []
               | Some m \<Rightarrow>
                   if includes_js (visitedNodes @ [node]) (Some m) then []
                   else visits (snd (recursion_IdCallSync heap nodeList callback data m
                          (callback node lastValue data) (visitedNodes @ [node]))))"
  by (subst recursion_IdCallSync.simps)
     (auto simp: Let_def nextId_def matches_def find_js_def split: option.splits prod.splits)

lemma IdMerge_visits:
  "visits (snd (recursion_IdMerge heap nodeList mergeFunction node visitedNodes))
     = node # (case nextId heap nodeList node of
                 None \<Rightarrow> []
               | Some m \<Rightarrow>
                   if includes_js (visitedNodes @ [node]) (Some m) then []
                   else visits (snd (recursion_IdMerge heap nodeList mergeFunction m
                          (visitedNodes @ [node]))))"
  by (subst recursion_IdMerge.simps)
     (auto simp: Let_def nextId_def matches_def find_js_def split: option.splits prod.splits)

text \<open>
  Claim C7 as it is stated (the next node is always the first element whose identifier
  compares equal to the link value) fails for an undefined link: the element at address 3
  has an undefined identifier, which compares equal to the undefined link of the node at
  address 0, and yet the node at 0 has no next node and the walk stops at it.
\<close>

theorem C7_undefined_link_has_no_next_node_counterexample:
  "linkName (getNode Undefined heapAbsent 0) = Undefined
   \<and> find (matches heapAbsent (linkName (getNode Undefined heapAbsent 0))) [1, 3, 2] = Some 3
   \<and> nextId heapAbsent [1, 3, 2] 0 = None
   \<and> visits (snd (walkChainIdCallSync heapAbsent [1, 3, 2] (appendId heapAbsent Undefined) 0 ()))
       = [0]"
  by code_simp

text \<open>
  Claim C7, amended. In the identifier traversals, whenever the link value of the current
  node is not undefined, the next node is the first element of the collection, in the order
  of the collection, whose identifier compares equal (\<^verbatim>\<open>==\<close>) to the link value, and
  there is no next node when no element matches; so of two elements that share an
  identifier the earlier one is taken. The walk goes on to that node unless it has been
  visited (fourth to sixth conjunct, for the three identifier traversals).
\<close>

theorem C7_next_node_is_first_match:
  assumes "linkName (getNode Undefined heap node) = linkId" and "linkId \<noteq> Undefined"
  shows "nextId heap nodeList node = find (matches heap linkId) nodeList
    \<and> (\<forall>pre m post. nodeList = pre @ m # post \<and> matches heap linkId m
          \<and> (\<forall>x \<in> set pre. \<not> matches heap linkId x)
          \<longrightarrow> nextId heap nodeList node = Some m)
    \<and> ((\<forall>x \<in> set nodeList. \<not> matches heap linkId x) \<longrightarrow> nextId heap nodeList node = None)
    \<and> visits (snd (recursion_IdCallSync heap nodeList callback data node lastValue visitedNodes))
        = node # (case nextId heap nodeList node of
                    None \<Rightarrow> []
                  | Some m \<Rightarrow>
                      if includes_js (visitedNodes @ [node]) (Some m) then []
                      else visits (snd (recursion_IdCallSync heap nodeList callback data m
                             (callback node lastValue data) (visitedNodes @ [node]))))
    \<and> visits (snd (recursion_IdMerge heap nodeList mergeFunction node visitedNodes))
        = node # (case nextId heap nodeList node of
                    None \<Rightarrow> []
                  | Some m \<Rightarrow>
                      if includes_js (visitedNodes @ [node]) (Some m) then []
                      else visits (snd (recursion_IdMerge heap nodeList mergeFunction m
                             (visitedNodes @ [node]))))
    \<and> visits (untimed (snd (snd
          (recursion_IdCall heap nodeList later data node lastValue visitedNodes now))))
        = visits (snd (recursion_IdCallSync heap nodeList (resolved later) data node lastValue
            visitedNodes))"
proof -
  have a: "nextId heap nodeList node = find (matches heap linkId) nodeList"
    using assms by (simp add: nextId_def find_js_def)
  have b: "\<forall>pre m post. nodeList = pre @ m # post \<and> matches heap linkId m
          \<and> (\<forall>x \<in> set pre. \<not> matches heap linkId x)
          \<longrightarrow> nextId heap nodeList node = Some m"
    using a find_first_match[of _ "matches heap linkId"] by auto
  have c: "(\<forall>x \<in> set nodeList. \<not> matches heap linkId x) \<longrightarrow> nextId heap nodeList node = None"
    using a find_no_match[of nodeList "matches heap linkId"] by auto
  have d: "visits (untimed (snd (snd
          (recursion_IdCall heap nodeList later data node lastValue visitedNodes now))))
        = visits (snd (recursion_IdCallSync heap nodeList (resolved later) data node lastValue
            visitedNodes))"
    by (simp add: IdCall_refines)
  show ?thesis
    using a b c d IdCallSync_visits[of heap nodeList callback data node lastValue visitedNodes]
      IdMerge_visits[of heap nodeList mergeFunction node visitedNodes]
    by blast
qed

theorem C7_next_node_is_first_match_witness:
  "linkName (getNode Undefined heapShared 0) = Str ''p'' \<and> Str ''p'' \<noteq> Undefined
   \<and> idName (getNode Undefined heapShared 1) = idName (getNode Undefined heapShared 2)
   \<and> nextId heapShared [1, 2] 0 = Some 1
   \<and> nextId heapShared [2, 1] 0 = Some 2
   \<and> visits (snd (walkChainIdCallSync heapShared [1, 2] (appendId heapShared Undefined) 0 ()))
       = [0, 1]
   \<and> visits (snd (walkChainIdMerge heapShared [2, 1] shallowMerge 0)) = [0, 2]"
proof -
  have a: "linkName (getNode Undefined heapShared 0) = Str ''p''"
    by (simp add: heapShared_def getNode_def)
  have b: "Str ''p'' \<noteq> Undefined" by simp
  have m: "matches heapShared (Str ''p'') 1" "matches heapShared (Str ''p'') 2"
    by (simp_all add: matches_def heapShared_def getNode_def)
  have "nextId heapShared [1, 2] 0 = find (matches heapShared (Str ''p'')) [1, 2]"
    using C7_next_node_is_first_match[OF a b, of "[1, 2]" "appendId heapShared Undefined" "()"
        None "[]" shallowMerge "appendIdLater heapShared Undefined" 0]
    by blast
  then have c: "nextId heapShared [1, 2] 0 = Some 1"
    using m by simp
  have d: "nextId heapShared [2, 1] 0 = Some 2"
    by code_simp
  have e: "idName (getNode Undefined heapShared 1) = idName (getNode Undefined heapShared 2)"
    by (simp add: heapShared_def getNode_def)
  have f: "visits (snd (walkChainIdCallSync heapShared [1, 2] (appendId heapShared Undefined) 0 ()))
       = [0, 1]"
    by code_simp
  have g: "visits (snd (walkChainIdMerge heapShared [2, 1] shallowMerge 0)) = [0, 2]"
    by code_simp
  show ?thesis using a b c d e f g by simp
qed

section \<open>The asynchronous traversals\<close>

lemma oneAtATime_append:
  "oneAtATime pending a \<Longrightarrow> oneAtATime None b \<Longrightarrow> oneAtATime pending (a @ b)"
  by (induction pending a rule: oneAtATime.induct) auto

lemma oneAtATime_Compare: "oneAtATime None (map Compare xs)"
  by (induction xs) auto

lemma Call_oneAtATime:
  "oneAtATime None (untimed (snd (snd
     (recursion_Call heap callback data node lastValue visitedNodes now))))"
proof (induction heap callback data node lastValue visitedNodes now rule: recursion_Call.induct)
  case (1 heap callback data node lastValue visitedNodes now)
  show ?case
    using 1
    apply (subst recursion_Call.simps)
    apply (auto simp: Let_def untimed_def split: option.splits prod.splits)
    done
qed

lemma snd_stamped: "map snd (map (\<lambda>nd. (t, Compare nd)) xs) = map Compare xs"
  by (simp add: comp_def)

lemma IdCall_oneAtATime:
  "oneAtATime None (untimed (snd (snd
     (recursion_IdCall heap nodeList callback data node lastValue visitedNodes now))))"
proof (induction heap nodeList callback data node lastValue visitedNodes now
    rule: recursion_IdCall.induct)
  case (1 heap nodeList callback data node lastValue visitedNodes now)
  show ?case
    using 1
    apply (subst recursion_IdCall.simps)
    apply (auto simp: Let_def untimed_def snd_stamped oneAtATime_Compare oneAtATime_append
                simp del: map_map
                split: option.splits prod.splits)
    done
qed

text \<open>
  Claim C8. The asynchronous call traversal waits for the result of the callback of each
  node before it resolves or visits the next node: in its trace at most one call is
  pending at any time (\<open>oneAtATime\<close>), the times never decrease (\<open>orderedFrom\<close>), and
  the trace is the trace of the synchronous traversal with each call followed at once by
  its completion (\<open>withSettles\<close>). So its final value is the result of the synchronous
  traversal over the values the promises are fulfilled with, whatever their delays. First
  conjunct: \<^verbatim>\<open>walkChainCall\<close>; second: \<^verbatim>\<open>walkChainIdCall\<close>; third and fourth: the
  chain A, B, C where the call on C takes less time than the call on B.
\<close>

theorem C8_asynchronous_traversal_is_sequential:
  "(let (r, t, tr) = walkChainCall heap later startNode data;
        (r', tr') = walkChainCallSync heap (resolved later) startNode data
    in r = r' \<and> untimed tr = withSettles later data tr'
       \<and> oneAtATime None (untimed tr) \<and> orderedFrom 0 tr)
   \<and> (let (r, t, tr) = walkChainIdCall heapI nodeList laterI startI dataI;
          (r', tr') = walkChainIdCallSync heapI nodeList (resolved laterI) startI dataI
      in r = r' \<and> untimed tr = withSettles laterI dataI tr'
         \<and> oneAtATime None (untimed tr) \<and> orderedFrom 0 tr)
   \<and> walkChainCall chainABC (appendIdLater chainABC None) 0 ()
       = (Some ''abc'', 56,
          [(0, Visit 0), (0, Invoke 0 None), (5, Settle 0 (Some ''a'')),
           (5, Visit 1), (5, Invoke 1 (Some ''a'')), (55, Settle 1 (Some ''ab'')),
           (55, Visit 2), (55, Invoke 2 (Some ''ab'')), (56, Settle 2 (Some ''abc''))])
   \<and> fst (walkChainCallSync chainABC (resolved (appendIdLater chainABC None)) 0 ()) = Some ''abc''"
proof (intro conjI)
  show "let (r, t, tr) = walkChainCall heap later startNode data;
        (r', tr') = walkChainCallSync heap (resolved later) startNode data
    in r = r' \<and> untimed tr = withSettles later data tr'
       \<and> oneAtATime None (untimed tr) \<and> orderedFrom 0 tr"
    using Call_refines[of heap later data startNode None "[]" 0]
      Call_oneAtATime[of heap later data startNode None "[]" 0]
      Call_times[of 0 heap later data startNode None "[]"]
    by (simp add: walkChainCall_def walkChainCallSync_def case_prod_beta)
next
  show "let (r, t, tr) = walkChainIdCall heapI nodeList laterI startI dataI;
          (r', tr') = walkChainIdCallSync heapI nodeList (resolved laterI) startI dataI
      in r = r' \<and> untimed tr = withSettles laterI dataI tr'
         \<and> oneAtATime None (untimed tr) \<and> orderedFrom 0 tr"
    using IdCall_refines[of heapI nodeList laterI dataI startI None "[]" 0]
      IdCall_oneAtATime[of heapI nodeList laterI dataI startI None "[]" 0]
      IdCall_times[of 0 heapI nodeList laterI dataI startI None "[]"]
    by (simp add: walkChainIdCall_def walkChainIdCallSync_def case_prod_beta)
next
  show "walkChainCall chainABC (appendIdLater chainABC None) 0 ()
       = (Some ''abc'', 56,
          [(0, Visit 0), (0, Invoke 0 None), (5, Settle 0 (Some ''a'')),
           (5, Visit 1), (5, Invoke 1 (Some ''a'')), (55, Settle 1 (Some ''ab'')),
           (55, Visit 2), (55, Invoke 2 (Some ''ab'')), (56, Settle 2 (Some ''abc''))])"
    by code_simp
next
  show "fst (walkChainCallSync chainABC (resolved (appendIdLater chainABC None)) 0 ()) = Some ''abc''"
    by code_simp
qed

section \<open>Termination and the result of a traversal\<close>

lemma chain_bound:
  assumes "follows next [] startNode p"
  shows "finite (reachable next startNode) \<and> length p \<le> card (reachable next startNode) + 1
    \<and> stopsAt next p \<and> p \<noteq> []"
proof -
  have "finite (reachable next startNode) \<and> length p = card (reachable next startNode)"
    using assms by (rule follows_count)
  moreover have "stopsAt next p"
    using follows_stop[OF assms] by (simp add: stopsAt_def)
  moreover have "p \<noteq> []"
    using follows_hd[OF assms] by simp
  ultimately show ?thesis by simp
qed

lemma stopsAt_includes:
  "stopsAt next p \<Longrightarrow> p \<noteq> []
   \<Longrightarrow> next (last p) = None \<or> includes_js (butlast p @ [last p]) (next (last p))"
  by (auto simp: stopsAt_def includes_js_def)

lemma IdMerge_at_end_next:
  "nextId heap nodeList node = None \<or> includes_js (visitedNodes @ [node]) (nextId heap nodeList node)
   \<Longrightarrow> fst (recursion_IdMerge heap nodeList mergeFunction node visitedNodes) = propId heap node"
  by (subst recursion_IdMerge.simps)
     (auto simp: Let_def nextId_def propId_def matches_def find_js_def split: if_splits)

lemma CallSync_outcome:
  "let (r, tr) = walkChainCallSync heap callback startNode data; p = visits tr
   in finite (reachable (nextDirect heap) startNode)
      \<and> length p \<le> card (reachable (nextDirect heap) startNode) + 1
      \<and> stopsAt (nextDirect heap) p
      \<and> (\<exists>acc. last (invocations tr) = (last p, acc) \<and> r = callback (last p) acc data)"
proof -
  obtain r tr where w: "walkChainCallSync heap callback startNode data = (r, tr)"
    by force
  have f: "follows (nextDirect heap) [] startNode (visits tr)"
    using CallSync_follows[of heap "[]" startNode callback data None] w
    by (simp add: walkChainCallSync_def)
  have t: "invocations tr = threaded callback data None (visits tr)"
    using CallSync_threaded[of heap callback data startNode None "[]"] w
    by (simp add: walkChainCallSync_def)
  have "r = foldl (\<lambda>acc n. callback n acc data) None (visits tr)"
    using CallSync_result[of heap callback data startNode None "[]"] w
    by (simp add: walkChainCallSync_def)
  from call_outcome[OF f t this] chain_bound[OF f] w
  show ?thesis by simp
qed

lemma IdCallSync_outcome:
  "let (r, tr) = walkChainIdCallSync heap nodeList callback startNode data; p = visits tr
   in finite (reachable (nextId heap nodeList) startNode)
      \<and> length p \<le> card (reachable (nextId heap nodeList) startNode) + 1
      \<and> stopsAt (nextId heap nodeList) p
      \<and> (\<exists>acc. last (invocations tr) = (last p, acc) \<and> r = callback (last p) acc data)"
proof -
  obtain r tr where w: "walkChainIdCallSync heap nodeList callback startNode data = (r, tr)"
    by force
  have f: "follows (nextId heap nodeList) [] startNode (visits tr)"
    using IdCallSync_follows[of heap nodeList "[]" startNode callback data None] w
    by (simp add: walkChainIdCallSync_def)
  have t: "invocations tr = threaded callback data None (visits tr)"
    using IdCallSync_threaded[of heap nodeList callback data startNode None "[]"] w
    by (simp add: walkChainIdCallSync_def)
  have "r = foldl (\<lambda>acc n. callback n acc data) None (visits tr)"
    using IdCallSync_result[of heap nodeList callback data startNode None "[]"] w
    by (simp add: walkChainIdCallSync_def)
  from call_outcome[OF f t this] chain_bound[OF f] w
  show ?thesis by simp
qed

lemma Call_outcome:
  "let (r, t, tr) = walkChainCall heap later startNode data; p = visits (untimed tr)
   in finite (reachable (nextDirect heap) startNode)
      \<and> length p \<le> card (reachable (nextDirect heap) startNode) + 1
      \<and> stopsAt (nextDirect heap) p
      \<and> (\<exists>acc. last (invocations (untimed tr)) = (last p, acc)
              \<and> r = outcome (later (last p) acc data))"
  using CallSync_outcome[of heap "resolved later" startNode data]
    Call_refines[of heap later data startNode None "[]" 0]
  by (simp add: walkChainCall_def walkChainCallSync_def case_prod_beta Let_def resolved_def)

lemma IdCall_outcome:
  "let (r, t, tr) = walkChainIdCall heap nodeList later startNode data; p = visits (untimed tr)
   in finite (reachable (nextId heap nodeList) startNode)
      \<and> length p \<le> card (reachable (nextId heap nodeList) startNode) + 1
      \<and> stopsAt (nextId heap nodeList) p
      \<and> (\<exists>acc. last (invocations (untimed tr)) = (last p, acc)
              \<and> r = outcome (later (last p) acc data))"
  using IdCallSync_outcome[of heap nodeList "resolved later" startNode data]
    IdCall_refines[of heap nodeList later data startNode None "[]" 0]
  by (simp add: walkChainIdCall_def walkChainIdCallSync_def case_prod_beta Let_def resolved_def)

lemma Merge_outcome:
  "let (r, tr) = walkChainMerge heap mergeFunction startNode; p = visits tr
   in finite (reachable (nextDirect heap) startNode)
      \<and> length p \<le> card (reachable (nextDirect heap) startNode) + 1
      \<and> stopsAt (nextDirect heap) p
      \<and> fst (recursion_Merge heap mergeFunction (last p) (butlast p)) = propDirect heap (last p)
      \<and> r = mergeAlong (propDirect heap) mergeFunction p"
proof -
  obtain r tr where w: "walkChainMerge heap mergeFunction startNode = (r, tr)"
    by force
  have f: "follows (nextDirect heap) [] startNode (visits tr)"
    using Merge_follows[of heap "[]" startNode mergeFunction] w
    by (simp add: walkChainMerge_def)
  have r: "r = mergeAlong (propDirect heap) mergeFunction (visits tr)"
    using Merge_result[of heap mergeFunction startNode "[]"] w
    by (simp add: walkChainMerge_def)
  have b: "finite (reachable (nextDirect heap) startNode)
      \<and> length (visits tr) \<le> card (reachable (nextDirect heap) startNode) + 1
      \<and> stopsAt (nextDirect heap) (visits tr) \<and> visits tr \<noteq> []"
    using chain_bound[OF f] .
  then have "fst (recursion_Merge heap mergeFunction (last (visits tr)) (butlast (visits tr)))
      = propDirect heap (last (visits tr))"
    using stopsAt_includes[of "nextDirect heap" "visits tr"]
      Merge_at_end[of heap "last (visits tr)" "butlast (visits tr)" mergeFunction]
    by auto
  then show ?thesis using w r b by simp
qed

lemma IdMerge_outcome:
  "let (r, tr) = walkChainIdMerge heap nodeList mergeFunction startNode; p = visits tr
   in finite (reachable (nextId heap nodeList) startNode)
      \<and> length p \<le> card (reachable (nextId heap nodeList) startNode) + 1
      \<and> stopsAt (nextId heap nodeList) p
      \<and> fst (recursion_IdMerge heap nodeList mergeFunction (last p) (butlast p))
          = propId heap (last p)
      \<and> r = mergeAlong (propId heap) mergeFunction p"
proof -
  obtain r tr where w: "walkChainIdMerge heap nodeList mergeFunction startNode = (r, tr)"
    by force
  have f: "follows (nextId heap nodeList) [] startNode (visits tr)"
    using IdMerge_follows[of heap nodeList "[]" startNode mergeFunction] w
    by (simp add: walkChainIdMerge_def)
  have r: "r = mergeAlong (propId heap) mergeFunction (visits tr)"
    using IdMerge_result[of heap nodeList mergeFunction startNode "[]"] w
    by (simp add: walkChainIdMerge_def)
  have b: "finite (reachable (nextId heap nodeList) startNode)
      \<and> length (visits tr) \<le> card (reachable (nextId heap nodeList) startNode) + 1
      \<and> stopsAt (nextId heap nodeList) (visits tr) \<and> visits tr \<noteq> []"
    using chain_bound[OF f] .
  then have "fst (recursion_IdMerge heap nodeList mergeFunction (last (visits tr))
        (butlast (visits tr)))
      = propId heap (last (visits tr))"
    using stopsAt_includes[of "nextId heap nodeList" "visits tr"]
      IdMerge_at_end_next[of heap nodeList "last (visits tr)" "butlast (visits tr)" mergeFunction]
    by auto
  then show ?thesis using w r b by simp
qed

text \<open>
  Claim C1 as it is stated (each of the six traversals returns the result computed at the
  node where the repeat or dead end was detected) fails for the merge traversals. On the
  cycle A, B the repeat is detected at B, where the result is the value \<^verbatim>\<open>{y:2}\<close> of B;
  the traversal returns the merge of it with the value of A.
\<close>

theorem C1_merge_returns_merged_value_counterexample:
  "visits (snd (walkChainMerge cycleAB shallowMerge 0)) = [0, 1]
   \<and> nextDirect cycleAB 1 = Some 0
   \<and> fst (recursion_Merge cycleAB shallowMerge 1 [0]) = Some [(''y'', 2)]
   \<and> fst (walkChainMerge cycleAB shallowMerge 0) = Some [(''y'', 2), (''x'', 1)]
   \<and> fst (walkChainMerge cycleAB shallowMerge 0) \<noteq> fst (recursion_Merge cycleAB shallowMerge 1 [0])"
  by code_simp

text \<open>
  Claim C1, amended. Every one of the six traversals terminates on every chain, a chain
  with a cycle included (the six recursions are total functions), in at most N + 1 steps,
  where N is the number of distinct nodes that can be reached from the start node and a
  step is the visit of a node; the nodes reachable are finitely many. The walk stops at a
  node whose next node is missing or visited already, the start node included
  (\<open>stopsAt\<close>). The four call traversals return the result the callback computed at that
  node. In the two merge traversals the result computed at that node is its own property
  value, and the traversal returns the merge of it with the values of the nearer nodes
  (\<open>mergeAlong\<close>). The conjuncts are, in order: \<^verbatim>\<open>walkChainCallSync\<close>,
  \<^verbatim>\<open>walkChainCall\<close>, \<^verbatim>\<open>walkChainMerge\<close>, \<^verbatim>\<open>walkChainIdCallSync\<close>,
  \<^verbatim>\<open>walkChainIdCall\<close>, \<^verbatim>\<open>walkChainIdMerge\<close>.
\<close>

theorem C1_every_traversal_stops_within_the_chain:
  "(let (r, tr) = walkChainCallSync heap callback startNode data; p = visits tr
    in finite (reachable (nextDirect heap) startNode)
       \<and> length p \<le> card (reachable (nextDirect heap) startNode) + 1
       \<and> stopsAt (nextDirect heap) p
       \<and> (\<exists>acc. last (invocations tr) = (last p, acc) \<and> r = callback (last p) acc data))
   \<and> (let (r, t, tr) = walkChainCall heap later startNode data; p = visits (untimed tr)
      in finite (reachable (nextDirect heap) startNode)
         \<and> length p \<le> card (reachable (nextDirect heap) startNode) + 1
         \<and> stopsAt (nextDirect heap) p
         \<and> (\<exists>acc. last (invocations (untimed tr)) = (last p, acc)
                 \<and> r = outcome (later (last p) acc data)))
   \<and> (let (r, tr) = walkChainMerge heap mergeFunction startNode; p = visits tr
      in finite (reachable (nextDirect heap) startNode)
         \<and> length p \<le> card (reachable (nextDirect heap) startNode) + 1
         \<and> stopsAt (nextDirect heap) p
         \<and> fst (recursion_Merge heap mergeFunction (last p) (butlast p)) = propDirect heap (last p)
         \<and> r = mergeAlong (propDirect heap) mergeFunction p)
   \<and> (let (r, tr) = walkChainIdCallSync heapI nodeList callbackI startI dataI; p = visits tr
      in finite (reachable (nextId heapI nodeList) startI)
         \<and> length p \<le> card (reachable (nextId heapI nodeList) startI) + 1
         \<and> stopsAt (nextId heapI nodeList) p
         \<and> (\<exists>acc. last (invocations tr) = (last p, acc) \<and> r = callbackI (last p) acc dataI))
   \<and> (let (r, t, tr) = walkChainIdCall heapI nodeList laterI startI dataI; p = visits (untimed tr)
      in finite (reachable (nextId heapI nodeList) startI)
         \<and> length p \<le> card (reachable (nextId heapI nodeList) startI) + 1
         \<and> stopsAt (nextId heapI nodeList) p
         \<and> (\<exists>acc. last (invocations (untimed tr)) = (last p, acc)
                 \<and> r = outcome (laterI (last p) acc dataI)))
   \<and> (let (r, tr) = walkChainIdMerge heapI nodeList mergeI startI; p = visits tr
      in finite (reachable (nextId heapI nodeList) startI)
         \<and> length p \<le> card (reachable (nextId heapI nodeList) startI) + 1
         \<and> stopsAt (nextId heapI nodeList) p
         \<and> fst (recursion_IdMerge heapI nodeList mergeI (last p) (butlast p))
             = propId heapI (last p)
         \<and> r = mergeAlong (propId heapI) mergeI p)"
  using CallSync_outcome[of heap callback startNode data]
    Call_outcome[of heap later startNode data]
    Merge_outcome[of heap mergeFunction startNode]
    IdCallSync_outcome[of heapI nodeList callbackI startI dataI]
    IdCall_outcome[of heapI nodeList laterI startI dataI]
    IdMerge_outcome[of heapI nodeList mergeI startI]
  by (intro conjI)

end
